theory Spec2Isabelle
  imports Main "HOL-Library.Word"
begin

section \<open>The resolver of \<^verbatim>\<open>pkg/engine/resolve/resolve.go\<close>\<close>

text \<open>
  A shallow embedding of the response resolver. Byte slices are character lists; a slice
  that the source compares with \<^verbatim>\<open>nil\<close> is a \<open>bytes option\<close>. Buffers that the source
  mutates through pointers are passed in and returned. Go errors are values of the datatype
  \<open>error\<close>; a function that returns \<^verbatim>\<open>err error\<close> returns an \<open>error option\<close>, \<open>None\<close> being
  \<^verbatim>\<open>nil\<close>.
\<close>

subsection \<open>Bytes and literals\<close>

type_synonym bytes = string

definition lBrace :: bytes where \<open>lBrace = ''{''\<close>
definition rBrace :: bytes where \<open>rBrace = ''}''\<close>
definition lBrack :: bytes where \<open>lBrack = ''[''\<close>
definition rBrack :: bytes where \<open>rBrack = '']''\<close>
definition comma :: bytes where \<open>comma = '',''\<close>
definition colon :: bytes where \<open>colon = '':''\<close>
definition quote :: bytes where \<open>quote = ''"''\<close>
definition quotedComma :: bytes where \<open>quotedComma = ''","''\<close>
definition null :: bytes where \<open>null = ''null''\<close>
definition literalData :: bytes where \<open>literalData = ''data''\<close>
definition literalErrors :: bytes where \<open>literalErrors = ''errors''\<close>
definition literalMessage :: bytes where \<open>literalMessage = ''message''\<close>
definition literalLocations :: bytes where \<open>literalLocations = ''locations''\<close>
definition literalLine :: bytes where \<open>literalLine = ''line''\<close>
definition literalColumn :: bytes where \<open>literalColumn = ''column''\<close>
definition literalPath :: bytes where \<open>literalPath = ''path''\<close>
definition literalExtensions :: bytes where \<open>literalExtensions = ''extensions''\<close>
definition unableToResolveMsg :: bytes where \<open>unableToResolveMsg = ''unable to resolve''\<close>
definition emptyArray :: bytes where \<open>emptyArray = ''[]''\<close>

text \<open>
  Modelled from the spec: the byte constants of the package \<^verbatim>\<open>pkg/lexer/literal\<close>, which is
  not among the sources. The spec gives the path syntax (\<^verbatim>\<open>/\<close> and the root \<^verbatim>\<open>/data\<close>), the
  literal \<^verbatim>\<open>null\<close>, the backslash-escaped quote of a GraphQL string literal, and the
  punctuation of objects and arrays.
\<close>

definition lit_SLASH :: bytes where \<open>lit_SLASH = ''/''\<close>
definition lit_DATA :: bytes where \<open>lit_DATA = ''data''\<close>
definition lit_NULL :: bytes where \<open>lit_NULL = ''null''\<close>
definition lit_BACKSLASH :: bytes where \<open>lit_BACKSLASH = [CHR 0x5C]\<close>
definition lit_QUOTE :: bytes where \<open>lit_QUOTE = ''"''\<close>
definition lit_LBRACE :: bytes where \<open>lit_LBRACE = ''{''\<close>
definition lit_RBRACE :: bytes where \<open>lit_RBRACE = ''}''\<close>
definition lit_LBRACK :: bytes where \<open>lit_LBRACK = ''[''\<close>
definition lit_RBRACK :: bytes where \<open>lit_RBRACK = '']''\<close>
definition lit_COMMA :: bytes where \<open>lit_COMMA = '',''\<close>
definition lit_COLON :: bytes where \<open>lit_COLON = '':''\<close>
definition lit_OP :: bytes where \<open>lit_OP = ''op''\<close>
definition lit_PATH :: bytes where \<open>lit_PATH = ''path''\<close>
definition lit_VALUE :: bytes where \<open>lit_VALUE = ''value''\<close>

lemmas literal_defs =
  lBrace_def rBrace_def lBrack_def rBrack_def comma_def colon_def quote_def quotedComma_def
  null_def literalData_def literalErrors_def literalMessage_def literalLocations_def
  literalLine_def literalColumn_def literalPath_def literalExtensions_def
  unableToResolveMsg_def emptyArray_def
  lit_SLASH_def lit_DATA_def lit_NULL_def lit_BACKSLASH_def lit_QUOTE_def lit_LBRACE_def
  lit_RBRACE_def lit_LBRACK_def lit_RBRACK_def lit_COMMA_def lit_COLON_def lit_OP_def
  lit_PATH_def lit_VALUE_def

subsection \<open>Errors\<close>

text \<open>
  The package's own error values, the error of \<^verbatim>\<open>validateContext\<close>, the error of an unknown
  variable source in \<^verbatim>\<open>InputTemplate.Render\<close>, the errors of the collaborators (the JSON
  parser, a data source and a writer, each with the collaborator's own code), and the panic
  of Go's runtime.
\<close>

datatype error =
    errNonNullableFieldValueIsNull
  | errTypeNameSkipped
  | errHeaderPathInvalid
  | ErrUnableToResolve
  | errInvalidContext
  | errUnknownVariableSource int
  | errJson nat
  | errLoad nat
  | errWrite nat
  | goPanic

subsection \<open>BufPair\<close>

text \<open>
  Modelled from the spec: \<^verbatim>\<open>fastbuffer.FastBuffer\<close> (package \<^verbatim>\<open>pkg/fastbuffer\<close>, not among the
  sources) is an append-only byte buffer: \<^verbatim>\<open>WriteBytes\<close> appends, \<^verbatim>\<open>Reset\<close> empties it,
  \<^verbatim>\<open>Len\<close> and \<^verbatim>\<open>Bytes\<close> read it. A buffer is the list of its bytes.
\<close>

record BufPair =
  Data :: bytes
  Errors :: bytes

definition NewBufPair :: BufPair where
  \<open>NewBufPair = \<lparr>Data = [], Errors = []\<rparr>\<close>

definition HasData :: \<open>BufPair \<Rightarrow> bool\<close> where
  \<open>HasData b = (length (Data b) \<noteq> 0)\<close>

definition HasErrors :: \<open>BufPair \<Rightarrow> bool\<close> where
  \<open>HasErrors b = (length (Errors b) \<noteq> 0)\<close>

definition Reset :: \<open>BufPair \<Rightarrow> BufPair\<close> where
  \<open>Reset b = b\<lparr>Data := [], Errors := []\<rparr>\<close>

definition writeData :: \<open>bytes \<Rightarrow> BufPair \<Rightarrow> BufPair\<close> where
  \<open>writeData d b = b\<lparr>Data := Data b @ d\<rparr>\<close>

definition writeErrors :: \<open>bytes \<Rightarrow> BufPair \<Rightarrow> BufPair\<close> where
  \<open>writeErrors d b = b\<lparr>Errors := Errors b @ d\<rparr>\<close>

text \<open>\<^verbatim>\<open>WriteErr\<close>: one error object; an absent (\<^verbatim>\<open>nil\<close>) part is left out.\<close>

definition errPart :: \<open>bytes \<Rightarrow> bytes option \<Rightarrow> bytes\<close> where
  \<open>errPart key v = (case v of None \<Rightarrow> [] | Some x \<Rightarrow> comma @ quote @ key @ quote @ colon @ x)\<close>

definition WriteErr :: \<open>bytes \<Rightarrow> bytes option \<Rightarrow> bytes option \<Rightarrow> bytes option \<Rightarrow> BufPair \<Rightarrow> BufPair\<close> where
  \<open>WriteErr message locations path extensions b =
     writeErrors
       ((if HasErrors b then comma else [])
        @ lBrace @ quote @ literalMessage @ quote @ colon @ quote @ message @ quote
        @ errPart literalLocations locations
        @ errPart literalPath path
        @ errPart literalExtensions extensions
        @ rBrace) b\<close>

text \<open>
  The merges take \<^verbatim>\<open>from\<close> and \<^verbatim>\<open>to\<close> and return both, since both are changed: what is
  moved is removed from \<^verbatim>\<open>from\<close>.
\<close>

definition MergeBufPairData :: \<open>BufPair \<Rightarrow> BufPair \<Rightarrow> bool \<Rightarrow> BufPair \<times> BufPair\<close> where
  \<open>MergeBufPairData from to prefixDataWithComma =
     (if \<not> HasData from then (from, to)
      else
        let to1 = (if prefixDataWithComma then writeData comma to else to);
            to2 = writeData (Data from) to1
        in (from\<lparr>Data := []\<rparr>, to2))\<close>

definition MergeBufPairErrors :: \<open>BufPair \<Rightarrow> BufPair \<Rightarrow> BufPair \<times> BufPair\<close> where
  \<open>MergeBufPairErrors from to =
     (if \<not> HasErrors from then (from, to)
      else
        let to1 = (if HasErrors to then writeErrors comma to else to);
            to2 = writeErrors (Errors from) to1
        in (from\<lparr>Errors := []\<rparr>, to2))\<close>

definition MergeBufPairs :: \<open>BufPair \<Rightarrow> BufPair \<Rightarrow> bool \<Rightarrow> BufPair \<times> BufPair\<close> where
  \<open>MergeBufPairs from to prefixDataWithComma =
     (let (from1, to1) = MergeBufPairData from to prefixDataWithComma
      in MergeBufPairErrors from1 to1)\<close>

subsection \<open>Writers\<close>

text \<open>
  An \<^verbatim>\<open>io.Writer\<close> is a state \<open>'w\<close> with a write function that returns the error of the
  call and the state after it. \<open>bufferWrite\<close> is the writer that is a growing byte buffer
  (\<^verbatim>\<open>bytes.Buffer\<close>), whose writes never fail.
\<close>

type_synonym 'w writer = \<open>'w \<Rightarrow> bytes \<Rightarrow> error option \<times> 'w\<close>

definition bufferWrite :: \<open>bytes writer\<close> where
  \<open>bufferWrite w d = (None, w @ d)\<close>

definition writeSafe :: \<open>'w writer \<Rightarrow> error option \<times> 'w \<Rightarrow> bytes \<Rightarrow> error option \<times> 'w\<close> where
  \<open>writeSafe wr st d = (case st of (err, w) \<Rightarrow> if err \<noteq> None then (err, w) else wr w d)\<close>

definition writeGraphqlResponse :: \<open>'w writer \<Rightarrow> BufPair \<Rightarrow> 'w \<Rightarrow> bool \<Rightarrow> error option \<times> 'w\<close> where
  \<open>writeGraphqlResponse wr buf w ignoreData =
     (let hasErrors = (length (Errors buf) \<noteq> 0);
          hasData = (length (Data buf) \<noteq> 0 \<and> \<not> ignoreData);
          s1 = writeSafe wr (None, w) lBrace;
          s2 = (if hasErrors
                then foldl (writeSafe wr) s1
                       [quote, literalErrors, quote, colon, lBrack, Errors buf, rBrack, comma]
                else s1);
          s3 = foldl (writeSafe wr) s2 [quote, literalData, quote, colon];
          s4 = (if hasData then wr (snd s3) (Data buf) else writeSafe wr s3 lit_NULL)
      in writeSafe wr s4 rBrace)\<close>

subsection \<open>Header variables\<close>

text \<open>
  The request headers are Go's \<^verbatim>\<open>http.Header\<close>, a map from names to value lists; reading a
  missing name gives the empty list. \<^verbatim>\<open>textproto.CanonicalMIMEHeaderKey\<close> belongs to Go's
  standard library and is the parameter \<open>canon\<close>.
\<close>

type_synonym Header = \<open>string \<Rightarrow> string list\<close>

fun writeJoined :: \<open>string list \<Rightarrow> nat \<Rightarrow> bytes \<Rightarrow> bytes\<close> where
  \<open>writeJoined [] j out = out\<close>
| \<open>writeJoined (v # vs) j out =
     writeJoined vs (Suc j) ((if j \<noteq> 0 then out @ lit_COMMA else out) @ v)\<close>

definition renderHeaderVariable ::
  \<open>(string \<Rightarrow> string) \<Rightarrow> Header \<Rightarrow> string list \<Rightarrow> bytes \<Rightarrow> error option \<times> bytes\<close> where
  \<open>renderHeaderVariable canon header path preparedInput =
     (if length path \<noteq> 1 then (Some errHeaderPathInvalid, preparedInput)
      else
        let canonicalName = canon (path ! 0);
            v = header canonicalName
        in if length v = 0 then (None, preparedInput)
           else if length v = 1 then (None, preparedInput @ v ! 0)
           else (None, writeJoined v 0 preparedInput))\<close>

text \<open>The values of a header joined by commas, as the spec words it.\<close>

fun commaJoined :: \<open>string list \<Rightarrow> bytes\<close> where
  \<open>commaJoined [] = []\<close>
| \<open>commaJoined [v] = v\<close>
| \<open>commaJoined (v # vs) = v @ '','' @ commaJoined vs\<close>

subsection \<open>Loops with an early return\<close>

text \<open>
  A \<^verbatim>\<open>for ... range\<close> loop whose body may return from the enclosing function: the body maps
  an element and the loop state to the next state (\<open>Next\<close>) or to the function's result
  (\<open>Return\<close>).
\<close>

datatype ('s, 'r) step = Next 's | Return 'r

fun iterate :: \<open>('a \<Rightarrow> 's \<Rightarrow> ('s, 'r) step) \<Rightarrow> 'a list \<Rightarrow> 's \<Rightarrow> ('s, 'r) step\<close> where
  \<open>iterate body [] s = Next s\<close>
| \<open>iterate body (x # xs) s =
     (case body x s of Next s' \<Rightarrow> iterate body xs s' | Return r \<Rightarrow> Return r)\<close>

lemma iterate_cong [fundef_cong]:
  \<open>xs = ys \<Longrightarrow> s = t \<Longrightarrow> (\<And>x u. x \<in> set ys \<Longrightarrow> body x u = body' x u)
   \<Longrightarrow> iterate body xs s = iterate body' ys t\<close>
proof (induction ys arbitrary: xs s t)
  case Nil
  then show ?case by simp
next
  case (Cons y ys)
  then show ?case by (auto split: step.splits)
qed

lemma iterate_append:
  \<open>iterate body (xs @ ys) s =
     (case iterate body xs s of Next s' \<Rightarrow> iterate body ys s' | Return r \<Rightarrow> Return r)\<close>
  by (induction xs arbitrary: s) (auto split: step.splits)

text \<open>The elements of a slice with their indices, as \<^verbatim>\<open>for i := range xs\<close> visits them.\<close>

definition indexed :: \<open>'a list \<Rightarrow> (nat \<times> 'a) list\<close> where
  \<open>indexed xs = zip [0..<length xs] xs\<close>

subsection \<open>The JSON parser\<close>

text \<open>
  \<^verbatim>\<open>github.com/buger/jsonparser\<close> is a library outside the repository. Its four functions that
  the resolver calls are the fields of the record \<open>jsonparser\<close>, a parameter of the model:
  \<^item> \<open>jp_Get data keys\<close> is the value, its type and the error of \<^verbatim>\<open>jsonparser.Get\<close>; the value
    is \<open>None\<close> for a \<^verbatim>\<open>nil\<close> slice;
  \<^item> \<open>jp_ArrayEach data keys\<close> is the list of the elements that the callback of
    \<^verbatim>\<open>jsonparser.ArrayEach\<close> receives, in order, and the error that the call returns;
  \<^item> \<open>jp_ObjectEach data\<close> is the list of the entries (key, value, type) that the callback of
    \<^verbatim>\<open>jsonparser.ObjectEach\<close> receives while it returns \<^verbatim>\<open>nil\<close>, and the error of the parser
    after the last of them;
  \<^item> \<open>jp_EachKey data paths\<close> is the list of the calls (index of the path, value, type) that
    the callback of \<^verbatim>\<open>jsonparser.EachKey\<close> receives, in the order of the document.
\<close>

datatype ValueType =
  jp_NotExist | jp_String | jp_Number | jp_Object | jp_Array | jp_Boolean | jp_Null | jp_Unknown

record jsonparser =
  jp_Get :: \<open>bytes \<Rightarrow> string list \<Rightarrow> bytes option \<times> ValueType \<times> error option\<close>
  jp_ArrayEach :: \<open>bytes \<Rightarrow> string list \<Rightarrow> (bytes \<times> ValueType) list \<times> error option\<close>
  jp_ObjectEach :: \<open>bytes \<Rightarrow> (bytes \<times> bytes \<times> ValueType) list \<times> error option\<close>
  jp_EachKey :: \<open>bytes \<Rightarrow> string list list \<Rightarrow> (nat \<times> bytes option \<times> ValueType) list\<close>

definition bytes_of :: \<open>bytes option \<Rightarrow> bytes\<close> where
  \<open>bytes_of v = (case v of None \<Rightarrow> [] | Some x \<Rightarrow> x)\<close>

definition responsePaths :: \<open>string list list\<close> where
  \<open>responsePaths = [[''errors''], [''data'']]\<close>

definition errorPaths :: \<open>string list list\<close> where
  \<open>errorPaths = [[''message''], [''locations''], [''path''], [''extensions'']]\<close>

definition entitiesPath :: \<open>string list\<close> where
  \<open>entitiesPath = [''_entities'', ''[0]'']\<close>

definition rootErrorsPathIndex :: nat where \<open>rootErrorsPathIndex = 0\<close>
definition rootDataPathIndex :: nat where \<open>rootDataPathIndex = 1\<close>
definition errorsMessagePathIndex :: nat where \<open>errorsMessagePathIndex = 0\<close>
definition errorsLocationsPathIndex :: nat where \<open>errorsLocationsPathIndex = 1\<close>
definition errorsPathPathIndex :: nat where \<open>errorsPathPathIndex = 2\<close>
definition errorsExtensionsPathIndex :: nat where \<open>errorsExtensionsPathIndex = 3\<close>

lemmas index_defs =
  rootErrorsPathIndex_def rootDataPathIndex_def errorsMessagePathIndex_def
  errorsLocationsPathIndex_def errorsPathPathIndex_def errorsExtensionsPathIndex_def

subsection \<open>Decimal numbers\<close>

text \<open>\<^verbatim>\<open>strconv.Itoa\<close> of Go's standard library: the decimal digits, with a sign.\<close>

definition digit :: \<open>nat \<Rightarrow> char\<close> where
  \<open>digit n = ''0123456789'' ! n\<close>

function natDigits :: \<open>nat \<Rightarrow> string\<close> where
  \<open>natDigits n = (if n < 10 then [digit n] else natDigits (n div 10) @ [digit (n mod 10)])\<close>
  by pat_completeness auto
termination
  by (relation \<open>measure (\<lambda>n. n)\<close>) auto

declare natDigits.simps [simp del]

definition Itoa :: \<open>int \<Rightarrow> string\<close> where
  \<open>Itoa i = (if i < 0 then ''-'' @ natDigits (nat (- i)) else natDigits (nat i))\<close>

subsection \<open>Context\<close>

text \<open>
  The per-request state. The hooks are absent (\<^verbatim>\<open>nil\<close>, as \<^verbatim>\<open>NewContext\<close> leaves them): they
  are observers without a result. The embedded \<^verbatim>\<open>context.Context\<close> carries the cancellation
  only. \<open>usedBuffers\<close> holds the content of each leased buffer.
\<close>

record Position =
  Line :: nat
  Column :: nat

record patch =
  patch_path :: bytes
  patch_extraPath :: \<open>bytes option\<close>
  patch_data :: bytes
  patch_index :: int

record Context =
  Variables :: bytes
  Header :: Header
  pathElements :: \<open>bytes list\<close>
  patches :: \<open>patch list\<close>
  usedBuffers :: \<open>bytes list\<close>
  currentPatch :: int
  maxPatch :: int
  pathPrefix :: bytes
  position :: Position

definition NewContext :: Context where
  \<open>NewContext = \<lparr>Variables = [], Header = (\<lambda>_. []), pathElements = [], patches = [],
     usedBuffers = [], currentPatch = - 1, maxPatch = - 1, pathPrefix = [],
     position = \<lparr>Line = 0, Column = 0\<rparr>\<rparr>\<close>

text \<open>\<^verbatim>\<open>Clone\<close> copies everything but the buffer leases, which start empty.\<close>

definition Clone :: \<open>Context \<Rightarrow> Context\<close> where
  \<open>Clone c = c\<lparr>usedBuffers := []\<rparr>\<close>

definition setPosition :: \<open>Position \<Rightarrow> Context \<Rightarrow> Context\<close> where
  \<open>setPosition p c = c\<lparr>position := p\<rparr>\<close>

definition addPathElement :: \<open>bytes \<Rightarrow> Context \<Rightarrow> Context\<close> where
  \<open>addPathElement elem c = c\<lparr>pathElements := pathElements c @ [elem]\<rparr>\<close>

definition addIntegerPathElement :: \<open>int \<Rightarrow> Context \<Rightarrow> Context\<close> where
  \<open>addIntegerPathElement elem c = c\<lparr>pathElements := pathElements c @ [Itoa elem]\<rparr>\<close>

definition removeLastPathElement :: \<open>Context \<Rightarrow> Context\<close> where
  \<open>removeLastPathElement c = c\<lparr>pathElements := butlast (pathElements c)\<rparr>\<close>

text \<open>The bytes of \<^verbatim>\<open>Context.path\<close>: the prefix, then the elements, the first one left out
  when it is \<^verbatim>\<open>data\<close>.\<close>

definition pathBytes :: \<open>Context \<Rightarrow> bytes\<close> where
  \<open>pathBytes c =
     (if length (pathPrefix c) \<noteq> 0 then pathPrefix c else lit_SLASH @ lit_DATA)
     @ concat (map (\<lambda>(i, e). if i = 0 \<and> lit_DATA = pathElements c ! 0 then []
                               else lit_SLASH @ e)
                 (indexed (pathElements c)))\<close>

text \<open>\<^verbatim>\<open>Context.path\<close> leases the buffer it writes the path to.\<close>

definition path_ctx :: \<open>Context \<Rightarrow> bytes \<times> Context\<close> where
  \<open>path_ctx c = (pathBytes c, c\<lparr>usedBuffers := usedBuffers c @ [pathBytes c]\<rparr>)\<close>

definition addPatch :: \<open>int \<Rightarrow> bytes \<Rightarrow> bytes option \<Rightarrow> bytes \<Rightarrow> Context \<Rightarrow> Context\<close> where
  \<open>addPatch idx p ep d c =
     c\<lparr>patches := patches c @ [\<lparr>patch_path = p, patch_extraPath = ep, patch_data = d, patch_index = idx\<rparr>],
       maxPatch := maxPatch c + 1\<rparr>\<close>

text \<open>\<^verbatim>\<open>popNextPatch\<close>; reading \<^verbatim>\<open>c.patches\<close> out of range panics in Go, here \<open>None\<close>.\<close>

definition popNextPatch :: \<open>Context \<Rightarrow> (patch \<times> bool) option \<times> Context\<close> where
  \<open>popNextPatch c =
     (let c1 = c\<lparr>currentPatch := currentPatch c + 1\<rparr>
      in if currentPatch c1 > maxPatch c1
         then (Some (\<lparr>patch_path = [], patch_extraPath = None, patch_data = [], patch_index = 0\<rparr>, False), c1)
         else if 0 \<le> currentPatch c1 \<and> nat (currentPatch c1) < length (patches c1)
         then (Some (patches c1 ! nat (currentPatch c1), True), c1)
         else (None, c1))\<close>

definition preparePatch :: \<open>int \<Rightarrow> bytes option \<Rightarrow> bytes \<Rightarrow> Context \<Rightarrow> Context\<close> where
  \<open>preparePatch patchIndex ep d c =
     (let c1 = c\<lparr>usedBuffers := usedBuffers c @ [d]\<rparr>;
          (p, c2) = path_ctx c1
      in addPatch patchIndex p ep d c2)\<close>

definition validateContext :: \<open>Context \<Rightarrow> error option\<close> where
  \<open>validateContext c =
     (if maxPatch c \<noteq> - 1 \<or> currentPatch c \<noteq> - 1 then Some errInvalidContext else None)\<close>

subsection \<open>Input templates\<close>

text \<open>
  The segment types and variable sources are Go integers; the constants are numbered by
  \<^verbatim>\<open>iota\<close> within one constant block, so the variable sources start at 3.
\<close>

definition StaticSegmentType :: int where \<open>StaticSegmentType = 1\<close>
definition VariableSegmentType :: int where \<open>VariableSegmentType = 2\<close>
definition VariableSourceObject :: int where \<open>VariableSourceObject = 3\<close>
definition VariableSourceContext :: int where \<open>VariableSourceContext = 4\<close>
definition VariableSourceRequestHeader :: int where \<open>VariableSourceRequestHeader = 5\<close>

lemmas segment_defs =
  StaticSegmentType_def VariableSegmentType_def VariableSourceObject_def
  VariableSourceContext_def VariableSourceRequestHeader_def

record TemplateSegment =
  SegmentType :: int
  SegmentData :: bytes
  VariableSource :: int
  VariableSourcePath :: \<open>string list\<close>
  RenderAsGraphQLValue :: bool

definition renderObjectVariable ::
  \<open>jsonparser \<Rightarrow> bytes \<Rightarrow> string list \<Rightarrow> bytes \<Rightarrow> error option \<times> bytes\<close> where
  \<open>renderObjectVariable jp d p preparedInput =
     (case jp_Get jp d p of
        (v, _, Some e) \<Rightarrow> (Some e, preparedInput)
      | (v, _, None) \<Rightarrow> (None, preparedInput @ bytes_of v))\<close>

text \<open>
  \<open>renderGraphQLValue\<close> calls itself on the values that the parser hands to the callbacks
  of \<^verbatim>\<open>ObjectEach\<close> and \<^verbatim>\<open>ArrayEach\<close>. The library gives the callback a part of the bytes it
  walks, so each such value is shorter than \<open>d\<close>, and the recursion ends. The model says so
  for a parser that is a parameter: a value that is not shorter than \<open>d\<close> is not rendered and
  is the error \<open>errJson 0\<close>.

  The callback of \<^verbatim>\<open>ObjectEach\<close> returns the error of the nested call, which ends the walk.
  The callback of \<^verbatim>\<open>ArrayEach\<close> has no result: the source keeps the error of the nested call
  in \<^verbatim>\<open>arrayErr\<close>, which the next element overwrites.
\<close>

function renderGraphQLValue ::
  \<open>jsonparser \<Rightarrow> bytes \<Rightarrow> ValueType \<Rightarrow> bytes \<Rightarrow> error option \<times> bytes\<close> where
  \<open>renderGraphQLValue jp d valueType buf =
     (case valueType of
        jp_String \<Rightarrow> (None, buf @ lit_BACKSLASH @ lit_QUOTE @ d @ lit_BACKSLASH @ lit_QUOTE)
      | jp_Object \<Rightarrow>
          (case iterate
                  (\<lambda>entry st.
                     let b1 = (if \<not> fst st then snd st @ lit_COMMA else snd st);
                         b2 = b1 @ fst entry @ lit_COLON
                     in if length (fst (snd entry)) < length d
                        then (case renderGraphQLValue jp (fst (snd entry)) (snd (snd entry)) b2 of
                                (None, b3) \<Rightarrow> Next (False, b3)
                              | (Some e, b3) \<Rightarrow> Return (Some e, b3))
                        else Return (Some (errJson 0), b2))
                  (fst (jp_ObjectEach jp d)) (True, buf @ lit_LBRACE) of
             Return r \<Rightarrow> r
           | Next st \<Rightarrow>
               (case snd (jp_ObjectEach jp d) of
                  Some e \<Rightarrow> (Some e, snd st)
                | None \<Rightarrow> (None, snd st @ lit_RBRACE)))
      | jp_Null \<Rightarrow> (None, buf @ lit_NULL)
      | jp_Boolean \<Rightarrow> (None, buf @ d)
      | jp_Array \<Rightarrow>
          (case iterate
                  (\<lambda>elem st.
                     let b1 = (if \<not> fst st then snd (snd st) @ lit_COMMA else snd (snd st))
                     in if length (fst elem) < length d
                        then (case renderGraphQLValue jp (fst elem) (snd elem) b1 of
                                (arrayErr, b2) \<Rightarrow> Next (False, arrayErr, b2))
                        else Next (False, Some (errJson 0), b1))
                  (fst (jp_ArrayEach jp d [])) (True, None, buf @ lit_LBRACK) of
             Return r \<Rightarrow> r
           | Next st \<Rightarrow>
               (case fst (snd st) of
                  Some arrayErr \<Rightarrow> (Some arrayErr, snd (snd st))
                | None \<Rightarrow>
                    (case snd (jp_ArrayEach jp d []) of
                       Some e \<Rightarrow> (Some e, snd (snd st))
                     | None \<Rightarrow> (None, snd (snd st) @ lit_RBRACK))))
      | jp_Number \<Rightarrow> (None, buf @ d)
      | _ \<Rightarrow> (None, buf))\<close>
  by pat_completeness auto
termination
  by (relation \<open>measure (\<lambda>(jp, d, valueType, buf). length d)\<close>) auto

declare renderGraphQLValue.simps [simp del]

text \<open>The bodies of the two callbacks by name, and the two loops in their terms.\<close>

definition objectBody :: \<open>jsonparser \<Rightarrow> bytes \<Rightarrow> bytes \<times> bytes \<times> ValueType \<Rightarrow> bool \<times> bytes
   \<Rightarrow> (bool \<times> bytes, error option \<times> bytes) step\<close> where
  \<open>objectBody jp d = (\<lambda>entry st.
                     let b1 = (if \<not> fst st then snd st @ lit_COMMA else snd st);
                         b2 = b1 @ fst entry @ lit_COLON
                     in if length (fst (snd entry)) < length d
                        then (case renderGraphQLValue jp (fst (snd entry)) (snd (snd entry)) b2 of
                                (None, b3) \<Rightarrow> Next (False, b3)
                              | (Some e, b3) \<Rightarrow> Return (Some e, b3))
                        else Return (Some (errJson 0), b2))\<close>

definition arrayBody :: \<open>jsonparser \<Rightarrow> bytes \<Rightarrow> bytes \<times> ValueType \<Rightarrow> bool \<times> error option \<times> bytes
   \<Rightarrow> (bool \<times> error option \<times> bytes, error option \<times> bytes) step\<close> where
  \<open>arrayBody jp d = (\<lambda>elem st.
                     let b1 = (if \<not> fst st then snd (snd st) @ lit_COMMA else snd (snd st))
                     in if length (fst elem) < length d
                        then (case renderGraphQLValue jp (fst elem) (snd elem) b1 of
                                (arrayErr, b2) \<Rightarrow> Next (False, arrayErr, b2))
                        else Next (False, Some (errJson 0), b1))\<close>

lemma renderGraphQLValue_Object:
  \<open>renderGraphQLValue jp d jp_Object buf =
     (case iterate (objectBody jp d) (fst (jp_ObjectEach jp d)) (True, buf @ lit_LBRACE) of
             Return r \<Rightarrow> r
           | Next st \<Rightarrow>
               (case snd (jp_ObjectEach jp d) of
                  Some e \<Rightarrow> (Some e, snd st)
                | None \<Rightarrow> (None, snd st @ lit_RBRACE)))\<close>
  by (subst renderGraphQLValue.simps) (simp add: objectBody_def)

lemma renderGraphQLValue_Array:
  \<open>renderGraphQLValue jp d jp_Array buf =
     (case iterate (arrayBody jp d) (fst (jp_ArrayEach jp d [])) (True, None, buf @ lit_LBRACK) of
             Return r \<Rightarrow> r
           | Next st \<Rightarrow>
               (case fst (snd st) of
                  Some arrayErr \<Rightarrow> (Some arrayErr, snd (snd st))
                | None \<Rightarrow>
                    (case snd (jp_ArrayEach jp d []) of
                       Some e \<Rightarrow> (Some e, snd (snd st))
                     | None \<Rightarrow> (None, snd (snd st) @ lit_RBRACK))))\<close>
  by (subst renderGraphQLValue.simps) (simp add: arrayBody_def)


definition renderContextVariable ::
  \<open>jsonparser \<Rightarrow> Context \<Rightarrow> string list \<Rightarrow> bool \<Rightarrow> bytes \<Rightarrow> error option \<times> bytes\<close> where
  \<open>renderContextVariable jp ctx p renderAsGraphQLValue preparedInput =
     (case jp_Get jp (Variables ctx) p of
        (v, valueType, Some e) \<Rightarrow> (Some e, preparedInput)
      | (v, valueType, None) \<Rightarrow>
          if \<not> renderAsGraphQLValue then (None, preparedInput @ bytes_of v)
          else renderGraphQLValue jp (bytes_of v) valueType preparedInput)\<close>

definition Render ::
  \<open>jsonparser \<Rightarrow> (string \<Rightarrow> string) \<Rightarrow> TemplateSegment list \<Rightarrow> Context \<Rightarrow> bytes \<Rightarrow> bytes
     \<Rightarrow> error option \<times> bytes\<close> where
  \<open>Render jp canon segments ctx d preparedInput =
     (case iterate
             (\<lambda>seg out.
                if SegmentType seg = StaticSegmentType then Next (out @ SegmentData seg)
                else if SegmentType seg = VariableSegmentType then
                  (case (if VariableSource seg = VariableSourceObject
                           then renderObjectVariable jp d (VariableSourcePath seg) out
                         else if VariableSource seg = VariableSourceContext
                           then renderContextVariable jp ctx (VariableSourcePath seg)
                                  (RenderAsGraphQLValue seg) out
                         else if VariableSource seg = VariableSourceRequestHeader
                           then renderHeaderVariable canon (Header ctx) (VariableSourcePath seg) out
                         else (Some (errUnknownVariableSource (VariableSource seg)), out)) of
                     (Some e, out1) \<Rightarrow> Return (Some e, out1)
                   | (None, out1) \<Rightarrow> Next out1)
                else Next out)
             segments preparedInput of
        Return r \<Rightarrow> r
      | Next out \<Rightarrow> (None, out))\<close>

subsection \<open>The resolver's collaborators\<close>

text \<open>
  What the resolver is given, besides the plan and the data:
  \<^item> \<open>parser\<close>, the JSON parser;
  \<^item> \<open>EnableSingleFlightLoader\<close>, the field of \<^verbatim>\<open>Resolver\<close>;
  \<^item> \<open>CanonicalMIMEHeaderKey\<close>, of Go's \<^verbatim>\<open>net/textproto\<close>;
  \<^item> \<open>rangeOrder\<close>, the order in which Go ranges over the keys of a map, given the keys
    in the order of their insertion (the language leaves it open);
  \<^item> \<open>completionOrder n\<close>, the order in which \<open>n\<close> goroutines that run the elements of an
    asynchronous array reach the error channel.
\<close>

record Resolver =
  parser :: jsonparser
  EnableSingleFlightLoader :: bool
  CanonicalMIMEHeaderKey :: \<open>string \<Rightarrow> string\<close>
  rangeOrder :: \<open>int list \<Rightarrow> int list\<close>
  completionOrder :: \<open>nat \<Rightarrow> nat list\<close>

subsection \<open>Leaves\<close>

text \<open>What a resolving function returns: the error, the context and the buffer pair.\<close>

type_synonym result = \<open>error option \<times> Context \<times> BufPair\<close>

definition resolveNull :: \<open>BufPair \<Rightarrow> BufPair\<close> where
  \<open>resolveNull b = writeData null b\<close>

definition resolveEmptyArray :: \<open>BufPair \<Rightarrow> BufPair\<close> where
  \<open>resolveEmptyArray b = writeData rBrack (writeData lBrack b)\<close>

definition resolveEmptyObject :: \<open>BufPair \<Rightarrow> BufPair\<close> where
  \<open>resolveEmptyObject b = writeData rBrace (writeData lBrace b)\<close>

definition resolveInteger ::
  \<open>jsonparser \<Rightarrow> string list \<Rightarrow> bool \<Rightarrow> bytes \<Rightarrow> BufPair \<Rightarrow> error option \<times> BufPair\<close> where
  \<open>resolveInteger jp p nullable d integerBuf =
     (case jp_Get jp d p of
        (v, dataType, err) \<Rightarrow>
          if err \<noteq> None \<or> dataType \<noteq> jp_Number
          then (if \<not> nullable then (Some errNonNullableFieldValueIsNull, integerBuf)
                else (None, resolveNull integerBuf))
          else (None, writeData (bytes_of v) integerBuf))\<close>

definition resolveFloat ::
  \<open>jsonparser \<Rightarrow> string list \<Rightarrow> bool \<Rightarrow> bytes \<Rightarrow> BufPair \<Rightarrow> error option \<times> BufPair\<close> where
  \<open>resolveFloat jp p nullable d floatBuf =
     (case jp_Get jp d p of
        (v, dataType, err) \<Rightarrow>
          if err \<noteq> None \<or> dataType \<noteq> jp_Number
          then (if \<not> nullable then (Some errNonNullableFieldValueIsNull, floatBuf)
                else (None, resolveNull floatBuf))
          else (None, writeData (bytes_of v) floatBuf))\<close>

definition resolveBoolean ::
  \<open>jsonparser \<Rightarrow> string list \<Rightarrow> bool \<Rightarrow> bytes \<Rightarrow> BufPair \<Rightarrow> error option \<times> BufPair\<close> where
  \<open>resolveBoolean jp p nullable d booleanBuf =
     (case jp_Get jp d p of
        (v, valueType, err) \<Rightarrow>
          if err \<noteq> None \<or> valueType \<noteq> jp_Boolean
          then (if \<not> nullable then (Some errNonNullableFieldValueIsNull, booleanBuf)
                else (None, resolveNull booleanBuf))
          else (None, writeData (bytes_of v) booleanBuf))\<close>

text \<open>
  \<^verbatim>\<open>unicode.IsLetter\<close> of Go's standard library on \<^verbatim>\<open>rune(data[0])\<close>, a code point below
  256: the letters of ASCII and of Latin-1.
\<close>

definition IsLetter :: \<open>char \<Rightarrow> bool\<close> where
  \<open>IsLetter c =
     (let n = (of_char c :: nat)
      in (65 \<le> n \<and> n \<le> 90) \<or> (97 \<le> n \<and> n \<le> 122) \<or> n = 170 \<or> n = 181 \<or> n = 186
         \<or> (192 \<le> n \<and> n \<le> 214) \<or> (216 \<le> n \<and> n \<le> 246) \<or> (248 \<le> n \<and> n \<le> 255))\<close>

text \<open>
  \<open>resolveString\<close>: the path of a \<^verbatim>\<open>String\<close> node is compared with \<^verbatim>\<open>nil\<close>, so it is an
  option. The local \<^verbatim>\<open>value\<close> is \<open>None\<close> while it is \<^verbatim>\<open>nil\<close>.
\<close>

definition resolveString ::
  \<open>jsonparser \<Rightarrow> string list option \<Rightarrow> bool \<Rightarrow> bytes \<Rightarrow> BufPair \<Rightarrow> error option \<times> BufPair\<close> where
  \<open>resolveString jp p nullable d stringBuf =
     (case (if length d \<noteq> 0 \<and> p = None
            then (case jp_Get jp d [] of
                    (_, valueType, _) \<Rightarrow>
                      if valueType = jp_String \<or> IsLetter (d ! 0) then Inr (Some d)
                      else if \<not> nullable then Inl (Some errNonNullableFieldValueIsNull, stringBuf)
                      else Inl (None, resolveNull stringBuf))
            else Inr None) of
        Inl r \<Rightarrow> r
      | Inr value1 \<Rightarrow>
          (case (if value1 = None
                 then (case jp_Get jp d (case p of None \<Rightarrow> [] | Some q \<Rightarrow> q) of
                         (v, valueType, err) \<Rightarrow>
                           if err \<noteq> None \<or> valueType \<noteq> jp_String
                           then (if \<not> nullable
                                 then Inl (Some errNonNullableFieldValueIsNull, stringBuf)
                                 else Inl (None, resolveNull stringBuf))
                           else Inr v)
                 else Inr value1) of
             Inl r \<Rightarrow> r
           | Inr value2 \<Rightarrow>
               if value2 = None \<and> \<not> nullable then (Some errNonNullableFieldValueIsNull, stringBuf)
               else (None, writeData quote (writeData (bytes_of value2) (writeData quote stringBuf)))))\<close>

text \<open>\<^verbatim>\<open>bytes.Join\<close> of Go's standard library.\<close>

fun Join :: \<open>bytes list \<Rightarrow> bytes \<Rightarrow> bytes\<close> where
  \<open>Join [] sep = []\<close>
| \<open>Join [x] sep = x\<close>
| \<open>Join (x # xs) sep = x @ sep @ Join xs sep\<close>

definition addResolveError :: \<open>Context \<Rightarrow> BufPair \<Rightarrow> BufPair\<close> where
  \<open>addResolveError ctx objectBuf =
     (let locations = lBrack @ lBrace @ quote @ literalLine @ quote @ colon
                      @ Itoa (int (Line (position ctx))) @ comma
                      @ quote @ literalColumn @ quote @ colon
                      @ Itoa (int (Column (position ctx))) @ rBrace @ rBrack;
          pathBytes = (if length (pathElements ctx) > 0
                       then Some (lBrack @ quote @ Join (pathElements ctx) quotedComma
                                  @ quote @ rBrack)
                       else None)
      in WriteErr unableToResolveMsg (Some locations) pathBytes None objectBuf)\<close>

subsection \<open>The response extractor\<close>

record ProcessResponseConfig =
  ExtractGraphqlResponse :: bool
  ExtractFederationEntities :: bool

text \<open>The four parts of one upstream error, as the inner callback assigns them.\<close>

definition errorParts ::
  \<open>jsonparser \<Rightarrow> bytes \<Rightarrow> bytes option \<times> bytes option \<times> bytes option \<times> bytes option\<close> where
  \<open>errorParts jp v =
     foldl (\<lambda>(message, locations, pth, extensions) (i, b, valueType).
              if i = errorsMessagePathIndex then (b, locations, pth, extensions)
              else if i = errorsLocationsPathIndex then (message, b, pth, extensions)
              else if i = errorsPathPathIndex then (message, locations, b, extensions)
              else if i = errorsExtensionsPathIndex then (message, locations, pth, b)
              else (message, locations, pth, extensions))
           (None, None, None, None) (jp_EachKey jp v errorPaths)\<close>

definition extractErrors :: \<open>jsonparser \<Rightarrow> bytes \<Rightarrow> BufPair \<Rightarrow> BufPair\<close> where
  \<open>extractErrors jp b bufPair =
     foldl (\<lambda>bp (v, dataType).
              case errorParts jp v of
                (message, locations, pth, extensions) \<Rightarrow>
                  (case message of
                     Some m \<Rightarrow> WriteErr m locations pth extensions bp
                   | None \<Rightarrow> bp))
           bufPair (fst (jp_ArrayEach jp b []))\<close>

definition extractResponse ::
  \<open>jsonparser \<Rightarrow> bytes \<Rightarrow> BufPair \<Rightarrow> ProcessResponseConfig \<Rightarrow> BufPair\<close> where
  \<open>extractResponse jp responseData bufPair cfg =
     (if length responseData = 0 then bufPair
      else if \<not> ExtractGraphqlResponse cfg then writeData responseData bufPair
      else
        foldl (\<lambda>bp (i, b, valueType).
                 if i = rootErrorsPathIndex then extractErrors jp (bytes_of b) bp
                 else if i = rootDataPathIndex then
                   (if ExtractFederationEntities cfg
                    then writeData (bytes_of (fst (jp_Get jp (bytes_of b) entitiesPath))) bp
                    else writeData (bytes_of b) bp)
                 else bp)
              bufPair (jp_EachKey jp responseData responsePaths))\<close>

subsection \<open>Fetches\<close>

text \<open>
  A data source is its \<^verbatim>\<open>Load\<close>: from the input to the error and the bytes written. The
  fetches of a request run one after the other here, so no fetch finds another one in
  flight: with single flight enabled every fetch is the leader of its key, loads into the
  shared pair of the in-flight entry and copies from it. The fetches of a
  \<^verbatim>\<open>ParallelFetch\<close>, which the source runs in goroutines, run in the order of the list.
\<close>

record SingleFetch =
  BufferId :: int
  DataSource :: \<open>bytes \<Rightarrow> error option \<times> bytes\<close>
  DisallowSingleFlight :: bool
  InputTemplate :: \<open>TemplateSegment list\<close>
  DataSourceIdentifier :: bytes
  ProcessResponseConfig :: ProcessResponseConfig

datatype Fetch = FetchKindSingle SingleFetch | FetchKindParallel \<open>SingleFetch list\<close>

text \<open>
  \<^verbatim>\<open>resultSet.buffers\<close>, a map from buffer ids to buffer pairs, as the list of its entries in
  the order of their insertion.
\<close>

type_synonym resultSet = \<open>(int \<times> BufPair) list\<close>

definition setBuffer :: \<open>int \<Rightarrow> BufPair \<Rightarrow> resultSet \<Rightarrow> resultSet\<close> where
  \<open>setBuffer k v s =
     (if k \<in> set (map fst s) then map (\<lambda>(k', v'). if k' = k then (k', v) else (k', v')) s
      else s @ [(k, v)])\<close>

definition getBuffer :: \<open>resultSet \<Rightarrow> int \<Rightarrow> BufPair option\<close> where
  \<open>getBuffer s k = map_of s k\<close>

definition resolveSingleFetch ::
  \<open>Resolver \<Rightarrow> SingleFetch \<Rightarrow> bytes \<Rightarrow> BufPair \<Rightarrow> error option \<times> BufPair\<close> where
  \<open>resolveSingleFetch r fetch preparedInput buf =
     (if \<not> EnableSingleFlightLoader r \<or> DisallowSingleFlight fetch
      then (case DataSource fetch preparedInput of
              (err, dataBuf) \<Rightarrow>
                (err, extractResponse (parser r) dataBuf buf (ProcessResponseConfig fetch)))
      else (case DataSource fetch preparedInput of
              (err, dataBuf) \<Rightarrow>
                let inflight = extractResponse (parser r) dataBuf NewBufPair
                                 (ProcessResponseConfig fetch);
                    buf1 = (if HasData inflight then writeData (Data inflight) buf else buf);
                    buf2 = (if HasErrors inflight then writeErrors (Errors inflight) buf1
                            else buf1)
                in (err, buf2)))\<close>

definition prepareSingleFetch ::
  \<open>Resolver \<Rightarrow> Context \<Rightarrow> SingleFetch \<Rightarrow> bytes \<Rightarrow> resultSet \<Rightarrow> bytes
     \<Rightarrow> error option \<times> resultSet \<times> bytes\<close> where
  \<open>prepareSingleFetch r ctx fetch d s preparedInput =
     (case Render (parser r) (CanonicalMIMEHeaderKey r) (InputTemplate fetch) ctx d preparedInput of
        (err, out) \<Rightarrow> (err, setBuffer (BufferId fetch) NewBufPair s, out))\<close>

text \<open>
  \<open>resolveFetch\<close>. Reading a buffer of the set that is not there gives a \<^verbatim>\<open>nil\<close> pair in Go;
  it cannot happen, since \<open>prepareSingleFetch\<close> has put it there.
\<close>

definition resolveFetch ::
  \<open>Resolver \<Rightarrow> Context \<Rightarrow> Fetch \<Rightarrow> bytes \<Rightarrow> resultSet \<Rightarrow> error option \<times> resultSet\<close> where
  \<open>resolveFetch r ctx fetch d s =
     (case fetch of
        FetchKindSingle f \<Rightarrow>
          (case prepareSingleFetch r ctx f d s [] of
             (Some e, s1, preparedInput) \<Rightarrow> (Some e, s1)
           | (None, s1, preparedInput) \<Rightarrow>
               (case resolveSingleFetch r f preparedInput
                       (case getBuffer s1 (BufferId f) of Some b \<Rightarrow> b | None \<Rightarrow> NewBufPair) of
                  (err, b) \<Rightarrow> (err, setBuffer (BufferId f) b s1)))
      | FetchKindParallel fs \<Rightarrow>
          (case iterate
                  (\<lambda>f (s1, preparedInputs).
                     case prepareSingleFetch r ctx f d s1 [] of
                       (Some e, s2, preparedInput) \<Rightarrow> Return (Some e, s2)
                     | (None, s2, preparedInput) \<Rightarrow> Next (s2, preparedInputs @ [preparedInput]))
                  fs (s, []) of
             Return res \<Rightarrow> res
           | Next (s1, preparedInputs) \<Rightarrow>
               (None,
                foldl (\<lambda>s2 (f, preparedInput).
                         setBuffer (BufferId f)
                           (snd (resolveSingleFetch r f preparedInput
                                   (case getBuffer s2 (BufferId f) of
                                      Some b \<Rightarrow> b | None \<Rightarrow> NewBufPair)))
                           s2)
                      s1 (zip fs preparedInputs))))\<close>

subsection \<open>Plan trees\<close>

text \<open>
  \<^verbatim>\<open>InitialBatchSize\<close> is a Go \<^verbatim>\<open>int\<close>, taken at its width of 64 bits: the subtraction in
  \<^verbatim>\<open>i > array.Stream.InitialBatchSize-1\<close> wraps around, and the comparison is signed.
\<close>

record Stream =
  Enabled :: bool
  InitialBatchSize :: \<open>64 word\<close>
  PatchIndex :: int

record Defer =
  DeferEnabled :: bool
  DeferPatchIndex :: int

text \<open>
  The nodes, each with the fields of its struct in their order. \<open>NoNode\<close> is a \<^verbatim>\<open>Node\<close> that is
  none of the nine kinds (the \<^verbatim>\<open>default\<close> branch of \<^verbatim>\<open>resolveNode\<close>), such as \<^verbatim>\<open>nil\<close>. The fields
  \<^verbatim>\<open>Defer\<close> and \<^verbatim>\<open>Stream\<close> of \<^verbatim>\<open>Field\<close> are not read by the resolver and are left out.
\<close>

datatype Node =
    Object bool \<open>string list\<close> \<open>Field list\<close> \<open>Fetch option\<close>
  | EmptyObject
  | Array \<open>string list\<close> bool bool Node Stream
  | EmptyArray
  | Null Defer
  | String \<open>string list option\<close> bool
  | Boolean \<open>string list\<close> bool
  | Integer \<open>string list\<close> bool
  | Float \<open>string list\<close> bool
  | NoNode
and Field =
    Field (Name: bytes) (Value: Node) (Position: Position) (HasBuffer: bool) (BufferID: int)
      (OnTypeName: \<open>bytes option\<close>)

definition isObject :: \<open>Node \<Rightarrow> bool\<close> where
  \<open>isObject n = (case n of Object _ _ _ _ \<Rightarrow> True | _ \<Rightarrow> False)\<close>

subsection \<open>Arrays\<close>

text \<open>
  The array functions take the resolver of the item, \<open>resolveItem\<close>, which is \<open>resolveNode\<close>
  at \<^verbatim>\<open>array.Item\<close>. The state of the loop of \<open>resolveArraySynchronous\<close> is the context, the
  array's buffer pair, the one item pair that is used again for every element, and the two
  locals.
\<close>

record arrayLoop =
  al_ctx :: Context
  al_arrayBuf :: BufPair
  al_itemBuf :: BufPair
  al_hasPreviousItem :: bool
  al_dataWritten :: nat

definition arrayItemStep ::
  \<open>(Context \<Rightarrow> bytes \<Rightarrow> BufPair \<Rightarrow> result) \<Rightarrow> bool \<Rightarrow> Stream \<Rightarrow> nat \<times> bytes \<Rightarrow> arrayLoop
     \<Rightarrow> (arrayLoop, result) step\<close> where
  \<open>arrayItemStep resolveItem nullable stream = (\<lambda>(i, item) st.
     if Enabled stream \<and> int i > sint (InitialBatchSize stream - 1)
     then Next (st\<lparr>al_ctx := removeLastPathElement
                      (preparePatch (PatchIndex stream) None item
                         (addIntegerPathElement (int i) (al_ctx st)))\<rparr>)
     else
       (case resolveItem (addIntegerPathElement (int i) (al_ctx st)) item (al_itemBuf st) of
          (err, c2, itemBuf) \<Rightarrow>
            let c3 = removeLastPathElement c2
            in (case err of
                  Some e \<Rightarrow>
                    if e = errNonNullableFieldValueIsNull \<and> nullable
                    then Return (None, c3, resolveNull ((al_arrayBuf st)\<lparr>Data := []\<rparr>))
                    else if e = errTypeNameSkipped
                    then Next (st\<lparr>al_ctx := c3, al_itemBuf := itemBuf\<rparr>)
                    else Return (Some e, c3, al_arrayBuf st)
                | None \<Rightarrow>
                    let dataWritten = al_dataWritten st + length (Data itemBuf);
                        (itemBuf1, arrayBuf1) =
                           MergeBufPairs itemBuf (al_arrayBuf st) (al_hasPreviousItem st)
                    in Next (st\<lparr>al_ctx := c3, al_arrayBuf := arrayBuf1, al_itemBuf := itemBuf1,
                               al_hasPreviousItem :=
                                 (if \<not> al_hasPreviousItem st \<and> dataWritten \<noteq> 0 then True
                                  else al_hasPreviousItem st),
                               al_dataWritten := dataWritten\<rparr>))))\<close>

definition resolveArraySynchronous ::
  \<open>(Context \<Rightarrow> bytes \<Rightarrow> BufPair \<Rightarrow> result) \<Rightarrow> bool \<Rightarrow> Stream \<Rightarrow> Context \<Rightarrow> bytes list \<Rightarrow> BufPair
     \<Rightarrow> result\<close> where
  \<open>resolveArraySynchronous resolveItem nullable stream ctx arrayItems arrayBuf =
     (case iterate (arrayItemStep resolveItem nullable stream) (indexed arrayItems)
             \<lparr>al_ctx = ctx, al_arrayBuf = writeData lBrack arrayBuf, al_itemBuf = NewBufPair,
              al_hasPreviousItem = False, al_dataWritten = 0\<rparr> of
        Return res \<Rightarrow> res
      | Next st \<Rightarrow> (None, al_ctx st, writeData rBrack (al_arrayBuf st)))\<close>

text \<open>
  \<open>resolveArrayAsynchronous\<close>: every element is resolved on a clone of the context into a
  pair of its own. A task whose error is neither \<^verbatim>\<open>nil\<close> nor the type-name skip offers it to
  the error channel, which holds one error: the error that is received after the wait is
  the first one in the order of completion. Every task completes before the wait ends: a
  task that \<open>completionOrder\<close> does not mention completes after the ones it mentions, in
  the order of the indices (\<open>schedule\<close>). The clones are dropped, the context of the caller
  is as it was.
\<close>

definition schedule :: \<open>Resolver \<Rightarrow> nat \<Rightarrow> nat list\<close> where
  \<open>schedule r n = completionOrder r n @ [0..<n]\<close>

definition asyncTasks ::
  \<open>(Context \<Rightarrow> bytes \<Rightarrow> BufPair \<Rightarrow> result) \<Rightarrow> Context \<Rightarrow> bytes list \<Rightarrow> result list\<close> where
  \<open>asyncTasks resolveItem ctx arrayItems =
     map (\<lambda>(i, itemData). resolveItem (addPathElement (Itoa (int i)) (Clone ctx)) itemData NewBufPair)
         (indexed arrayItems)\<close>

definition firstError :: \<open>nat list \<Rightarrow> result list \<Rightarrow> error option\<close> where
  \<open>firstError order results =
     (case filter (\<lambda>e. e \<noteq> None \<and> e \<noteq> Some errTypeNameSkipped)
             (map (\<lambda>j. fst (results ! j)) (filter (\<lambda>j. j < length results) order)) of
        [] \<Rightarrow> None
      | e # _ \<Rightarrow> e)\<close>

definition mergeItem :: \<open>BufPair \<Rightarrow> BufPair \<times> bool \<times> nat \<Rightarrow> BufPair \<times> bool \<times> nat\<close> where
  \<open>mergeItem itemBuf = (\<lambda>(arrayBuf, hasPreviousItem, dataWritten).
     let dataWritten1 = dataWritten + length (Data itemBuf);
         (itemBuf1, arrayBuf1) = MergeBufPairs itemBuf arrayBuf hasPreviousItem
     in (arrayBuf1,
         (if \<not> hasPreviousItem \<and> dataWritten1 \<noteq> 0 then True else hasPreviousItem),
         dataWritten1))\<close>

definition resolveArrayAsynchronous ::
  \<open>Resolver \<Rightarrow> (Context \<Rightarrow> bytes \<Rightarrow> BufPair \<Rightarrow> result) \<Rightarrow> bool \<Rightarrow> Context \<Rightarrow> bytes list \<Rightarrow> BufPair
     \<Rightarrow> result\<close> where
  \<open>resolveArrayAsynchronous r resolveItem nullable ctx arrayItems arrayBuf =
     (let arrayBuf1 = writeData lBrack arrayBuf;
          results = asyncTasks resolveItem ctx arrayItems
      in case firstError (schedule r (length arrayItems)) results of
           Some e \<Rightarrow>
             if e = errNonNullableFieldValueIsNull \<and> nullable
             then (None, ctx, resolveNull (arrayBuf1\<lparr>Data := []\<rparr>))
             else (Some e, ctx, arrayBuf1)
         | None \<Rightarrow>
             (case foldl (\<lambda>acc res. mergeItem (snd (snd res)) acc) (arrayBuf1, False, 0) results of
                (arrayBuf2, hasPreviousItem, dataWritten) \<Rightarrow>
                  (None, ctx, writeData rBrack arrayBuf2)))\<close>

definition resolveArray ::
  \<open>Resolver \<Rightarrow> (Context \<Rightarrow> bytes \<Rightarrow> BufPair \<Rightarrow> result) \<Rightarrow> string list \<Rightarrow> bool \<Rightarrow> bool \<Rightarrow> Stream
     \<Rightarrow> Context \<Rightarrow> bytes \<Rightarrow> BufPair \<Rightarrow> result\<close> where
  \<open>resolveArray r resolveItem p nullable resolveAsynchronous stream ctx d arrayBuf =
     (if d = emptyArray then (None, ctx, resolveEmptyArray arrayBuf)
      else
        let arrayItems = map fst (fst (jp_ArrayEach (parser r) d p))
        in if length arrayItems = 0
           then (if \<not> nullable
                 then (Some errNonNullableFieldValueIsNull, ctx, resolveEmptyArray arrayBuf)
                 else (None, ctx, resolveNull arrayBuf))
           else if resolveAsynchronous \<and> \<not> Enabled stream
           then resolveArrayAsynchronous r resolveItem nullable ctx arrayItems arrayBuf
           else resolveArraySynchronous resolveItem nullable stream ctx arrayItems arrayBuf)\<close>

subsection \<open>Objects\<close>

text \<open>
  \<open>resolveObject\<close> takes \<open>resolveNode\<close> as \<open>rn\<close> and calls it at the values of its fields. The
  state of the loop over the fields is the context, the object's buffer pair, the one field
  pair that is used again for every field, and the two flags. The result set is \<open>None\<close>
  while the source's \<^verbatim>\<open>set\<close> is \<^verbatim>\<open>nil\<close>.
\<close>

record fieldLoop =
  fl_ctx :: Context
  fl_objectBuf :: BufPair
  fl_fieldBuf :: BufPair
  fl_typeNameSkip :: bool
  fl_first :: bool

definition fieldStep ::
  \<open>Resolver \<Rightarrow> (Context \<Rightarrow> bytes \<Rightarrow> BufPair \<Rightarrow> result) \<Rightarrow> bool \<Rightarrow> resultSet option \<Rightarrow> bytes
     \<Rightarrow> Field \<Rightarrow> fieldLoop \<Rightarrow> (fieldLoop, result) step\<close> where
  \<open>fieldStep r resolveValue nullable s d f st =
     (let fieldData =
            (if s \<noteq> None \<and> HasBuffer f
             then (case getBuffer (the s) (BufferID f) of Some buffer \<Rightarrow> Data buffer | None \<Rightarrow> [])
             else d)
      in if OnTypeName f \<noteq> None
            \<and> bytes_of (fst (jp_Get (parser r) fieldData [''__typename''])) \<noteq> bytes_of (OnTypeName f)
         then Next (st\<lparr>fl_typeNameSkip := True\<rparr>)
         else
           let ob1 = (if fl_first st then writeData lBrace (fl_objectBuf st)
                      else writeData comma (fl_objectBuf st));
               ob2 = writeData colon (writeData quote (writeData (Name f) (writeData quote ob1)));
               c1 = setPosition (Position f) (addPathElement (Name f) (fl_ctx st))
           in (case resolveValue c1 fieldData (fl_fieldBuf st) of
                 (err, c2, fieldBuf) \<Rightarrow>
                   let c3 = removeLastPathElement c2
                   in (case err of
                         Some e \<Rightarrow>
                           if e = errTypeNameSkipped
                           then Return (None, c3, resolveEmptyObject (ob2\<lparr>Data := []\<rparr>))
                           else if e = errNonNullableFieldValueIsNull
                           then
                             (case MergeBufPairErrors fieldBuf (ob2\<lparr>Data := []\<rparr>) of
                                (fieldBuf1, ob3) \<Rightarrow>
                                  if nullable then Return (None, c3, resolveNull ob3)
                                  else if \<not> isObject (Value f)
                                  then Return (Some e, c3, addResolveError c3 ob3)
                                  else Return (Some e, c3, ob3))
                           else Return (Some e, c3, ob2)
                       | None \<Rightarrow>
                           (case MergeBufPairs fieldBuf ob2 False of
                              (fieldBuf1, ob3) \<Rightarrow>
                                Next (st\<lparr>fl_ctx := c3, fl_objectBuf := ob3, fl_fieldBuf := fieldBuf1,
                                        fl_first := False\<rparr>)))))\<close>

text \<open>The errors of the fetched buffers go to the object's pair, in the order of the range.\<close>

definition mergeFetchErrors :: \<open>Resolver \<Rightarrow> resultSet \<Rightarrow> BufPair \<Rightarrow> resultSet \<times> BufPair\<close> where
  \<open>mergeFetchErrors r s objectBuf =
     foldl (\<lambda>(s1, ob) k.
              case getBuffer s1 k of
                None \<Rightarrow> (s1, ob)
              | Some b \<Rightarrow> (case MergeBufPairErrors b ob of (b1, ob1) \<Rightarrow> (setBuffer k b1 s1, ob1)))
           (s, objectBuf) (rangeOrder r (map fst s))\<close>

definition resolveObject ::
  \<open>Resolver \<Rightarrow> (Node \<Rightarrow> Context \<Rightarrow> bytes \<Rightarrow> BufPair \<Rightarrow> result) \<Rightarrow> bool \<Rightarrow> string list \<Rightarrow> Field list
     \<Rightarrow> Fetch option \<Rightarrow> Context \<Rightarrow> bytes \<Rightarrow> BufPair \<Rightarrow> result\<close> where
  \<open>resolveObject r rn nullable p flds fetch ctx d0 objectBuf =
     (let d = (if length p \<noteq> 0 then bytes_of (fst (jp_Get (parser r) d0 p)) else d0)
      in if length p \<noteq> 0 \<and> length d = 0
         then (if nullable then (None, ctx, resolveNull objectBuf)
               else (Some errNonNullableFieldValueIsNull, ctx, addResolveError ctx objectBuf))
         else
           (case (case fetch of
                    None \<Rightarrow> (None, None, objectBuf)
                  | Some f \<Rightarrow>
                      (case resolveFetch r ctx f d [] of
                         (Some e, s) \<Rightarrow> (Some e, Some s, objectBuf)
                       | (None, s) \<Rightarrow>
                           (case mergeFetchErrors r s objectBuf of
                              (s1, ob) \<Rightarrow> (None, Some s1, ob)))) of
              (Some e, s, ob) \<Rightarrow> (Some e, ctx, ob)
            | (None, s, ob) \<Rightarrow>
                (case iterate (\<lambda>f. fieldStep r (rn (Value f)) nullable s d f) flds
                        \<lparr>fl_ctx = ctx, fl_objectBuf = ob, fl_fieldBuf = NewBufPair,
                         fl_typeNameSkip = False, fl_first = True\<rparr> of
                   Return res \<Rightarrow> res
                 | Next st \<Rightarrow>
                     if fl_first st
                     then (if fl_typeNameSkip st
                           then (Some errTypeNameSkipped, fl_ctx st, fl_objectBuf st)
                           else if \<not> nullable
                           then (Some errNonNullableFieldValueIsNull, fl_ctx st,
                                 addResolveError (fl_ctx st) (fl_objectBuf st))
                           else (None, fl_ctx st, resolveNull (fl_objectBuf st)))
                     else (None, fl_ctx st, writeData rBrace (fl_objectBuf st)))))\<close>

lemma resolveObject_cong [fundef_cong]:
  assumes \<open>flds = flds'\<close>
    and \<open>\<And>f. f \<in> set flds' \<Longrightarrow> rn (Value f) = rn' (Value f)\<close>
  shows \<open>resolveObject r rn nullable p flds fetch ctx d0 objectBuf
       = resolveObject r rn' nullable p flds' fetch ctx d0 objectBuf\<close>
proof -
  have h: \<open>iterate (\<lambda>f. fieldStep r (rn (Value f)) nullable s d f) flds st
      = iterate (\<lambda>f. fieldStep r (rn' (Value f)) nullable s d f) flds' st\<close> for s d st
    using assms by (intro iterate_cong) simp_all
  show ?thesis
    unfolding resolveObject_def h by (rule refl)
qed

subsection \<open>The tree walker\<close>

lemma size_Value_less: \<open>f \<in> set flds \<Longrightarrow> size (Value f) < Suc (size_list size flds)\<close>
proof (induction flds)
  case Nil
  then show ?case by simp
next
  case (Cons g flds)
  then show ?case by (cases f) auto
qed

function (sequential) resolveNode ::
  \<open>Resolver \<Rightarrow> Node \<Rightarrow> Context \<Rightarrow> bytes \<Rightarrow> BufPair \<Rightarrow> result\<close> where
  \<open>resolveNode r (Object nullable p flds fetch) ctx d bufPair =
     resolveObject r (\<lambda>v. resolveNode r v) nullable p flds fetch ctx d bufPair\<close>
| \<open>resolveNode r (Array p nullable resolveAsynchronous item stream) ctx d bufPair =
     resolveArray r (\<lambda>c. resolveNode r item c) p nullable resolveAsynchronous stream ctx d bufPair\<close>
| \<open>resolveNode r (Null defer) ctx d bufPair =
     (None,
      (if DeferEnabled defer then preparePatch (DeferPatchIndex defer) None d ctx else ctx),
      resolveNull bufPair)\<close>
| \<open>resolveNode r (String p nullable) ctx d bufPair =
     (case resolveString (parser r) p nullable d bufPair of (err, b) \<Rightarrow> (err, ctx, b))\<close>
| \<open>resolveNode r (Boolean p nullable) ctx d bufPair =
     (case resolveBoolean (parser r) p nullable d bufPair of (err, b) \<Rightarrow> (err, ctx, b))\<close>
| \<open>resolveNode r (Integer p nullable) ctx d bufPair =
     (case resolveInteger (parser r) p nullable d bufPair of (err, b) \<Rightarrow> (err, ctx, b))\<close>
| \<open>resolveNode r (Float p nullable) ctx d bufPair =
     (case resolveFloat (parser r) p nullable d bufPair of (err, b) \<Rightarrow> (err, ctx, b))\<close>
| \<open>resolveNode r EmptyObject ctx d bufPair = (None, ctx, resolveEmptyObject bufPair)\<close>
| \<open>resolveNode r EmptyArray ctx d bufPair = (None, ctx, resolveEmptyArray bufPair)\<close>
| \<open>resolveNode r NoNode ctx d bufPair = (None, ctx, bufPair)\<close>
  by pat_completeness auto
termination
proof (relation \<open>measure (\<lambda>(r, n, ctx, d, bufPair). size n)\<close>, goal_cases)
  case 1
  then show ?case by simp
next
  case (2 r nullable p flds fetch ctx d bufPair f x xa xb)
  then show ?case
    using size_Value_less[of f flds] by simp
next
  case (3 r p nullable resolveAsynchronous item stream ctx d bufPair x xa xb)
  then show ?case by simp
qed

subsection \<open>Resolving a response\<close>

datatype GraphQLResponse = GraphQLResponse (ResponseData: Node)

definition ResolveGraphQLResponse ::
  \<open>Resolver \<Rightarrow> 'w writer \<Rightarrow> Context \<Rightarrow> GraphQLResponse \<Rightarrow> bytes \<Rightarrow> 'w
     \<Rightarrow> error option \<times> Context \<times> 'w\<close> where
  \<open>ResolveGraphQLResponse r wr ctx response d w =
     (let responseBuf = extractResponse (parser r) d NewBufPair
                          \<lparr>ExtractGraphqlResponse = True, ExtractFederationEntities = False\<rparr>
      in case resolveNode r (ResponseData response) ctx (Data responseBuf) NewBufPair of
           (err, ctx1, buf) \<Rightarrow>
             if err \<noteq> None \<and> err \<noteq> Some errNonNullableFieldValueIsNull then (err, ctx1, w)
             else
               let ignoreData = (err \<noteq> None);
                   buf1 = (if length (Errors responseBuf) > 0
                           then snd (MergeBufPairErrors responseBuf buf) else buf)
               in (case writeGraphqlResponse wr buf1 w ignoreData of
                     (werr, w1) \<Rightarrow> (werr, ctx1, w1)))\<close>

subsection \<open>The parts of the loops, by name\<close>

text \<open>
  The pieces of \<open>fieldStep\<close>, \<open>arrayItemStep\<close> and \<open>resolveObject\<close> under names of their own, and
  the three functions written in their terms: the data and the buffer head of one field, the
  test of \<^verbatim>\<open>__typename\<close>, what the loop does with the result of resolving a field or an element,
  the data, the fetch and the end of an object.
\<close>

definition fieldDataOf :: \<open>resultSet option \<Rightarrow> bytes \<Rightarrow> Field \<Rightarrow> bytes\<close> where
  \<open>fieldDataOf s d f =
     (if s \<noteq> None \<and> HasBuffer f
      then (case getBuffer (the s) (BufferID f) of Some buffer \<Rightarrow> Data buffer | None \<Rightarrow> [])
      else d)\<close>

definition typeNameDiffers :: \<open>Resolver \<Rightarrow> bytes \<Rightarrow> Field \<Rightarrow> bool\<close> where
  \<open>typeNameDiffers r fieldData f \<longleftrightarrow>
     OnTypeName f \<noteq> None
     \<and> bytes_of (fst (jp_Get (parser r) fieldData [''__typename''])) \<noteq> bytes_of (OnTypeName f)\<close>

definition fieldHead :: \<open>Field \<Rightarrow> fieldLoop \<Rightarrow> BufPair\<close> where
  \<open>fieldHead f st =
     writeData colon (writeData quote (writeData (Name f) (writeData quote
       (if fl_first st then writeData lBrace (fl_objectBuf st)
        else writeData comma (fl_objectBuf st)))))\<close>

definition fieldCtx :: \<open>Field \<Rightarrow> fieldLoop \<Rightarrow> Context\<close> where
  \<open>fieldCtx f st = setPosition (Position f) (addPathElement (Name f) (fl_ctx st))\<close>

definition fieldOutcome ::
  \<open>bool \<Rightarrow> Field \<Rightarrow> fieldLoop \<Rightarrow> result \<Rightarrow> (fieldLoop, result) step\<close> where
  \<open>fieldOutcome nullable f st res =
     (case res of (err, c2, fieldBuf) \<Rightarrow>
        let c3 = removeLastPathElement c2; ob2 = fieldHead f st
        in (case err of
              Some e \<Rightarrow>
                if e = errTypeNameSkipped
                then Return (None, c3, resolveEmptyObject (ob2\<lparr>Data := []\<rparr>))
                else if e = errNonNullableFieldValueIsNull
                then
                  (case MergeBufPairErrors fieldBuf (ob2\<lparr>Data := []\<rparr>) of
                     (fieldBuf1, ob3) \<Rightarrow>
                       if nullable then Return (None, c3, resolveNull ob3)
                       else if \<not> isObject (Value f)
                       then Return (Some e, c3, addResolveError c3 ob3)
                       else Return (Some e, c3, ob3))
                else Return (Some e, c3, ob2)
            | None \<Rightarrow>
                (case MergeBufPairs fieldBuf ob2 False of
                   (fieldBuf1, ob3) \<Rightarrow>
                     Next (st\<lparr>fl_ctx := c3, fl_objectBuf := ob3, fl_fieldBuf := fieldBuf1,
                             fl_first := False\<rparr>))))\<close>

lemma fieldStep_unfold:
  \<open>fieldStep r resolveValue nullable s d f st =
     (if typeNameDiffers r (fieldDataOf s d f) f then Next (st\<lparr>fl_typeNameSkip := True\<rparr>)
      else fieldOutcome nullable f st
             (resolveValue (fieldCtx f st) (fieldDataOf s d f) (fl_fieldBuf st)))\<close>
  unfolding fieldStep_def fieldDataOf_def typeNameDiffers_def fieldOutcome_def fieldHead_def
    fieldCtx_def Let_def
  by (rule refl)

definition itemOutcome :: \<open>bool \<Rightarrow> arrayLoop \<Rightarrow> result \<Rightarrow> (arrayLoop, result) step\<close> where
  \<open>itemOutcome nullable st res =
     (case res of (err, c2, itemBuf) \<Rightarrow>
        let c3 = removeLastPathElement c2
        in (case err of
              Some e \<Rightarrow>
                if e = errNonNullableFieldValueIsNull \<and> nullable
                then Return (None, c3, resolveNull ((al_arrayBuf st)\<lparr>Data := []\<rparr>))
                else if e = errTypeNameSkipped
                then Next (st\<lparr>al_ctx := c3, al_itemBuf := itemBuf\<rparr>)
                else Return (Some e, c3, al_arrayBuf st)
            | None \<Rightarrow>
                let dataWritten = al_dataWritten st + length (Data itemBuf);
                    (itemBuf1, arrayBuf1) =
                       MergeBufPairs itemBuf (al_arrayBuf st) (al_hasPreviousItem st)
                in Next (st\<lparr>al_ctx := c3, al_arrayBuf := arrayBuf1, al_itemBuf := itemBuf1,
                           al_hasPreviousItem :=
                             (if \<not> al_hasPreviousItem st \<and> dataWritten \<noteq> 0 then True
                              else al_hasPreviousItem st),
                           al_dataWritten := dataWritten\<rparr>)))\<close>

lemma arrayItemStep_unfold:
  \<open>arrayItemStep resolveItem nullable stream (i, item) st =
     (if Enabled stream \<and> int i > sint (InitialBatchSize stream - 1)
      then Next (st\<lparr>al_ctx := removeLastPathElement
                      (preparePatch (PatchIndex stream) None item
                         (addIntegerPathElement (int i) (al_ctx st)))\<rparr>)
      else itemOutcome nullable st
             (resolveItem (addIntegerPathElement (int i) (al_ctx st)) item (al_itemBuf st)))\<close>
  unfolding arrayItemStep_def itemOutcome_def by simp

definition objectData :: \<open>Resolver \<Rightarrow> string list \<Rightarrow> bytes \<Rightarrow> bytes\<close> where
  \<open>objectData r p d0 = (if length p \<noteq> 0 then bytes_of (fst (jp_Get (parser r) d0 p)) else d0)\<close>

definition objectFetch ::
  \<open>Resolver \<Rightarrow> Fetch option \<Rightarrow> Context \<Rightarrow> bytes \<Rightarrow> BufPair
     \<Rightarrow> error option \<times> resultSet option \<times> BufPair\<close> where
  \<open>objectFetch r fetch ctx d objectBuf =
     (case fetch of
        None \<Rightarrow> (None, None, objectBuf)
      | Some f \<Rightarrow>
          (case resolveFetch r ctx f d [] of
             (Some e, s) \<Rightarrow> (Some e, Some s, objectBuf)
           | (None, s) \<Rightarrow>
               (case mergeFetchErrors r s objectBuf of
                  (s1, ob) \<Rightarrow> (None, Some s1, ob))))\<close>

definition objectEnd :: \<open>bool \<Rightarrow> fieldLoop \<Rightarrow> result\<close> where
  \<open>objectEnd nullable st =
     (if fl_first st
      then (if fl_typeNameSkip st
            then (Some errTypeNameSkipped, fl_ctx st, fl_objectBuf st)
            else if \<not> nullable
            then (Some errNonNullableFieldValueIsNull, fl_ctx st,
                  addResolveError (fl_ctx st) (fl_objectBuf st))
            else (None, fl_ctx st, resolveNull (fl_objectBuf st)))
      else (None, fl_ctx st, writeData rBrace (fl_objectBuf st)))\<close>

definition fieldLoopStart :: \<open>Context \<Rightarrow> BufPair \<Rightarrow> fieldLoop\<close> where
  \<open>fieldLoopStart ctx ob = \<lparr>fl_ctx = ctx, fl_objectBuf = ob, fl_fieldBuf = NewBufPair,
                         fl_typeNameSkip = False, fl_first = True\<rparr>\<close>

lemma resolveObject_unfold:
  \<open>resolveObject r rn nullable p flds fetch ctx d0 objectBuf =
     (if length p \<noteq> 0 \<and> length (objectData r p d0) = 0
      then (if nullable then (None, ctx, resolveNull objectBuf)
            else (Some errNonNullableFieldValueIsNull, ctx, addResolveError ctx objectBuf))
      else
        (case objectFetch r fetch ctx (objectData r p d0) objectBuf of
           (Some e, s, ob) \<Rightarrow> (Some e, ctx, ob)
         | (None, s, ob) \<Rightarrow>
             (case iterate (\<lambda>f. fieldStep r (rn (Value f)) nullable s (objectData r p d0) f) flds
                     (fieldLoopStart ctx ob) of
                Return res \<Rightarrow> res
              | Next st \<Rightarrow> objectEnd nullable st)))\<close>
  unfolding resolveObject_def objectData_def objectFetch_def objectEnd_def fieldLoopStart_def Let_def
  by (rule refl)

subsection \<open>Patches and the streaming response\<close>

record GraphQLResponsePatch =
  PatchValue :: Node
  PatchFetch :: \<open>Fetch option\<close>
  Operation :: bytes

record GraphQLStreamingResponse =
  InitialResponse :: GraphQLResponse
  Patches :: \<open>GraphQLResponsePatch list\<close>
  FlushInterval :: int

text \<open>
  \<open>ResolveGraphQLResponsePatch\<close>. The frame is written with \<^verbatim>\<open>writeSafe\<close>, but for the value, which
  is written whatever the error before it.
\<close>

definition ResolveGraphQLResponsePatch ::
  \<open>Resolver \<Rightarrow> 'w writer \<Rightarrow> Context \<Rightarrow> GraphQLResponsePatch \<Rightarrow> bytes \<Rightarrow> bytes \<Rightarrow> bytes option \<Rightarrow> 'w
     \<Rightarrow> error option \<times> Context \<times> 'w\<close> where
  \<open>ResolveGraphQLResponsePatch r wr ctx ptch d0 p ep w =
     (let ctx1 = ctx\<lparr>pathPrefix := p @ bytes_of ep\<rparr>
      in case (case PatchFetch ptch of
                 None \<Rightarrow> (None, NewBufPair, d0)
               | Some f \<Rightarrow>
                   (case resolveFetch r ctx1 f d0 [] of
                      (Some e, s) \<Rightarrow> (Some e, NewBufPair, d0)
                    | (None, s) \<Rightarrow>
                        (case getBuffer s 0 of
                           Some b \<Rightarrow> (None, snd (MergeBufPairErrors b NewBufPair), Data b)
                         | None \<Rightarrow> (None, NewBufPair, d0)))) of
           (Some e, buf, d) \<Rightarrow> (Some e, ctx1, w)
         | (None, buf, d) \<Rightarrow>
             (case resolveNode r (PatchValue ptch) ctx1 d buf of
                (Some e, ctx2, buf1) \<Rightarrow> (Some e, ctx2, w)
              | (None, ctx2, buf1) \<Rightarrow>
                  let hasErrors = (length (Errors buf1) \<noteq> 0);
                      hasData = (length (Data buf1) \<noteq> 0)
                  in if hasErrors then (None, ctx2, w)
                     else if hasData then
                       (let s1 = foldl (writeSafe wr) (None, w)
                                   [lBrace, quote, lit_OP, quote, colon, quote, Operation ptch, quote,
                                    comma, quote, lit_PATH, quote, colon, quote, p, quote,
                                    comma, quote, lit_VALUE, quote, colon];
                            s2 = wr (snd s1) (Data buf1);
                            s3 = writeSafe wr s2 rBrace
                        in (fst s3, ctx2, snd s3))
                     else (None, ctx2, w)))\<close>

text \<open>
  \<open>ResolveGraphQLStreamingResponse\<close>. The writer has a \<^verbatim>\<open>Flush\<close>, here \<open>fl\<close>. The clock and the
  cancellation are outside the program: \<open>after k\<close> says whether the time of the next flush
  has passed at the \<open>k\<close>-th turn of the loop, \<open>cancelled k\<close> whether the context is done there.
  The loop runs as long as patches are queued, and resolving a patch can queue more, so it
  takes fuel: \<open>None\<close> is a loop that has not ended when the fuel is used up. The patches are
  written to a byte buffer, the frames to the writer. An index out of range is Go's panic.
\<close>

fun streamLoop ::
  \<open>Resolver \<Rightarrow> 'w writer \<Rightarrow> ('w \<Rightarrow> 'w) \<Rightarrow> (nat \<Rightarrow> bool) \<Rightarrow> (nat \<Rightarrow> bool)
     \<Rightarrow> GraphQLStreamingResponse \<Rightarrow> nat \<Rightarrow> nat \<Rightarrow> Context \<Rightarrow> bytes \<Rightarrow> 'w
     \<Rightarrow> (error option \<times> Context \<times> 'w) option\<close> where
  \<open>streamLoop r wr fl after cancelled response 0 k ctx buf w = None\<close>
| \<open>streamLoop r wr fl after cancelled response (Suc fuel) k ctx buf w =
     (if cancelled k then Some (None, ctx, w)
      else
        (case popNextPatch ctx of
           (None, ctx1) \<Rightarrow> Some (Some goPanic, ctx1, w)
         | (Some (ptch, ok), ctx1) \<Rightarrow>
             if \<not> ok then
               (if length buf \<noteq> 1
                then (case wr w (buf @ lit_RBRACK) of
                        (Some e, w1) \<Rightarrow> Some (Some e, ctx1, w1)
                      | (None, w1) \<Rightarrow> Some (None, ctx1, fl w1))
                else Some (None, ctx1, w))
             else if patch_index ptch > int (length (Patches response)) - 1
             then streamLoop r wr fl after cancelled response fuel (Suc k) ctx1 buf w
             else if patch_index ptch < 0 then Some (Some goPanic, ctx1, w)
             else
               (let buf1 = (if length buf \<noteq> 1 then buf @ lit_COMMA else buf)
                in case ResolveGraphQLResponsePatch r bufferWrite ctx1
                          (Patches response ! nat (patch_index ptch))
                          (patch_data ptch) (patch_path ptch) (patch_extraPath ptch) buf1 of
                     (Some e, ctx2, buf2) \<Rightarrow> Some (Some e, ctx2, w)
                   | (None, ctx2, buf2) \<Rightarrow>
                       if after k
                       then (case wr w (buf2 @ lit_RBRACK) of
                               (Some e, w1) \<Rightarrow> Some (Some e, ctx2, w1)
                             | (None, w1) \<Rightarrow>
                                 streamLoop r wr fl after cancelled response fuel (Suc k) ctx2
                                   lit_LBRACK (fl w1))
                       else streamLoop r wr fl after cancelled response fuel (Suc k) ctx2 buf2 w)))\<close>

definition ResolveGraphQLStreamingResponse ::
  \<open>Resolver \<Rightarrow> 'w writer \<Rightarrow> ('w \<Rightarrow> 'w) \<Rightarrow> (nat \<Rightarrow> bool) \<Rightarrow> (nat \<Rightarrow> bool) \<Rightarrow> nat
     \<Rightarrow> Context \<Rightarrow> GraphQLStreamingResponse \<Rightarrow> bytes \<Rightarrow> 'w
     \<Rightarrow> (error option \<times> Context \<times> 'w) option\<close> where
  \<open>ResolveGraphQLStreamingResponse r wr fl after cancelled fuel ctx response d w =
     (case validateContext ctx of
        Some e \<Rightarrow> Some (Some e, ctx, w)
      | None \<Rightarrow>
          (case ResolveGraphQLResponse r wr ctx (InitialResponse response) d w of
             (Some e, ctx1, w1) \<Rightarrow> Some (Some e, ctx1, w1)
           | (None, ctx1, w1) \<Rightarrow>
               streamLoop r wr fl after cancelled response fuel 0 ctx1 lit_LBRACK (fl w1)))\<close>


subsection \<open>JSON values and GraphQL literals, in the spec's words\<close>

text \<open>
  A JSON value as a tree, and the GraphQL literal that the spec gives for it: a string
  between backslash-escaped quotes, an object in braces with unquoted keys, an array in
  brackets, and \<^verbatim>\<open>null\<close>, booleans and numbers as they are. \<open>represents jp j d t\<close> says that the
  parser reads the bytes \<open>d\<close> of type \<open>t\<close> as the tree \<open>j\<close>, without an error.
\<close>

datatype json =
    JString bytes
  | JNumber bytes
  | JBoolean bytes
  | JNull
  | JObject \<open>(bytes \<times> json) list\<close>
  | JArray \<open>json list\<close>

fun graphqlLiteral :: \<open>json \<Rightarrow> bytes\<close> where
  \<open>graphqlLiteral (JString s) = [CHR 0x5C] @ ''"'' @ s @ [CHR 0x5C] @ ''"''\<close>
| \<open>graphqlLiteral (JNumber n) = n\<close>
| \<open>graphqlLiteral (JBoolean b) = b\<close>
| \<open>graphqlLiteral JNull = ''null''\<close>
| \<open>graphqlLiteral (JObject kvs) =
     ''{'' @ commaJoined (map (\<lambda>kv. fst kv @ '':'' @ graphqlLiteral (snd kv)) kvs) @ ''}''\<close>
| \<open>graphqlLiteral (JArray vs) = ''['' @ commaJoined (map graphqlLiteral vs) @ '']''\<close>

fun represents :: \<open>jsonparser \<Rightarrow> json \<Rightarrow> bytes \<Rightarrow> ValueType \<Rightarrow> bool\<close> where
  \<open>represents jp (JString s) d t = (t = jp_String \<and> d = s)\<close>
| \<open>represents jp (JNumber n) d t = (t = jp_Number \<and> d = n)\<close>
| \<open>represents jp (JBoolean b) d t = (t = jp_Boolean \<and> d = b)\<close>
| \<open>represents jp JNull d t = (t = jp_Null \<and> d = ''null'')\<close>
| \<open>represents jp (JObject kvs) d t =
     (t = jp_Object \<and> snd (jp_ObjectEach jp d) = None
      \<and> list_all2 (\<lambda>kv entry. fst kv = fst entry \<and> length (fst (snd entry)) < length d
                       \<and> represents jp (snd kv) (fst (snd entry)) (snd (snd entry)))
           kvs (fst (jp_ObjectEach jp d)))\<close>
| \<open>represents jp (JArray vs) d t =
     (t = jp_Array \<and> snd (jp_ArrayEach jp d []) = None
      \<and> list_all2 (\<lambda>v elem. length (fst elem) < length d
                       \<and> represents jp v (fst elem) (snd elem))
           vs (fst (jp_ArrayEach jp d [])))\<close>

subsection \<open>The spec's wording of the merge\<close>

text \<open>
  The spec's sentence on \<^verbatim>\<open>merge(from, to, prefixWithComma)\<close>, for the data buffer: the comma
  is written if and only if \<^verbatim>\<open>to.data\<close> already has data and the flag is set. It is compared
  with \<open>MergeBufPairs\<close> below.
\<close>

definition spec_merge_data :: \<open>BufPair \<Rightarrow> BufPair \<Rightarrow> bool \<Rightarrow> bytes\<close> where
  \<open>spec_merge_data from to prefixWithComma =
     Data to @ (if Data to \<noteq> [] \<and> prefixWithComma then '','' else []) @ Data from\<close>

subsection \<open>The envelope of the caller's data, in the spec's words\<close>

text \<open>
  The caller's data seen as a response envelope \<^verbatim>\<open>{"errors":[...],"data":...}\<close>, through the
  parser: \<open>spec_envelope_data\<close> is the value at \<^verbatim>\<open>data\<close>; \<open>spec_envelope_errors\<close> is the
  elements of the array at \<^verbatim>\<open>errors\<close> that carry a message, each written as one error object
  (\<open>spec_errorObject\<close>) and joined by commas. \<open>spec_join_errors first second\<close> puts \<open>second\<close>
  after \<open>first\<close>, with a comma between them when both are there.
\<close>

definition spec_errorPart :: \<open>jsonparser \<Rightarrow> bytes \<Rightarrow> nat \<Rightarrow> bytes option\<close> where
  \<open>spec_errorPart jp v i =
     (case filter (\<lambda>(k, b, t). k = i) (jp_EachKey jp v errorPaths) of
        [] \<Rightarrow> None
      | x # xs \<Rightarrow> fst (snd (last (x # xs))))\<close>

definition spec_errorObject :: \<open>jsonparser \<Rightarrow> bytes \<Rightarrow> bytes option\<close> where
  \<open>spec_errorObject jp v =
     (case spec_errorPart jp v 0 of
        None \<Rightarrow> None
      | Some m \<Rightarrow>
          Some (''{"message":"'' @ m @ ''"''
                @ (case spec_errorPart jp v 1 of None \<Rightarrow> [] | Some l \<Rightarrow> '',"locations":'' @ l)
                @ (case spec_errorPart jp v 2 of None \<Rightarrow> [] | Some p \<Rightarrow> '',"path":'' @ p)
                @ (case spec_errorPart jp v 3 of None \<Rightarrow> [] | Some e \<Rightarrow> '',"extensions":'' @ e)
                @ ''}''))\<close>

definition spec_envelope_errors :: \<open>jsonparser \<Rightarrow> bytes \<Rightarrow> bytes\<close> where
  \<open>spec_envelope_errors jp d =
     (if d = [] then []
      else commaJoined
             (List.map_filter (spec_errorObject jp)
                (concat (map (\<lambda>x. map fst (fst (jp_ArrayEach jp (bytes_of (fst (snd x))) [])))
                           (filter (\<lambda>x. fst x = 0) (jp_EachKey jp d responsePaths))))))\<close>

definition spec_envelope_data :: \<open>jsonparser \<Rightarrow> bytes \<Rightarrow> bytes\<close> where
  \<open>spec_envelope_data jp d =
     (if d = [] then []
      else concat (map (\<lambda>x. bytes_of (fst (snd x)))
                     (filter (\<lambda>x. fst x = 1) (jp_EachKey jp d responsePaths))))\<close>

definition spec_join_errors :: \<open>bytes \<Rightarrow> bytes \<Rightarrow> bytes\<close> where
  \<open>spec_join_errors first second =
     (if second = [] then first else if first = [] then second else first @ '','' @ second)\<close>


subsection \<open>The patches of a streaming array, in the spec's words\<close>

text \<open>
  The patch that the spec gives for the element \<open>item\<close> at the index \<open>i\<close> of a streaming array:
  the array's patch index, the current path extended with \<^verbatim>\<open>/i\<close>, no extra path, and the bytes
  of the element. \<open>spec_enqueue\<close> puts the patches of the elements \<open>rest\<close> at the end of the
  queue; each of them leases two buffers, for the bytes of the element and for the path.
\<close>

definition spec_streamPatch :: \<open>Stream \<Rightarrow> Context \<Rightarrow> nat \<times> bytes \<Rightarrow> patch\<close> where
  \<open>spec_streamPatch stream c = (\<lambda>(i, item).
     \<lparr>patch_path = pathBytes c @ ''/'' @ Itoa (int i), patch_extraPath = None,
      patch_data = item, patch_index = PatchIndex stream\<rparr>)\<close>

definition spec_enqueue :: \<open>Stream \<Rightarrow> (nat \<times> bytes) list \<Rightarrow> Context \<Rightarrow> Context\<close> where
  \<open>spec_enqueue stream rest c =
     c\<lparr>patches := patches c @ map (spec_streamPatch stream c) rest,
       maxPatch := maxPatch c + int (length rest),
       usedBuffers := usedBuffers c
          @ concat (map (\<lambda>(i, item). [item, pathBytes c @ ''/'' @ Itoa (int i)]) rest)\<rparr>\<close>


text \<open>
  The elements of the initial batch, resolved and emitted inline as usual: the elements are
  resolved one after the other, each at the current path extended with its index and into a
  buffer pair of its own, and the context goes from one to the next. \<open>spec_resolveEach\<close>
  gives the error and the pair of each element and the context at the end. \<open>spec_inlineData\<close>
  is what the array holds between its brackets, the outputs that are not empty with commas
  between them; \<open>spec_inlineErrors\<close> are the errors, those of the elements after the ones
  that were there. \<open>joinedFrom\<close> joins with a comma in front when something precedes.
\<close>

fun spec_resolveEach ::
  \<open>(Context \<Rightarrow> bytes \<Rightarrow> BufPair \<Rightarrow> result) \<Rightarrow> (nat \<times> bytes) list \<Rightarrow> Context
     \<Rightarrow> (error option \<times> BufPair) list \<times> Context\<close> where
  \<open>spec_resolveEach resolveItem [] c = ([], c)\<close>
| \<open>spec_resolveEach resolveItem (e # rest) c =
     (case resolveItem (addIntegerPathElement (int (fst e)) c) (snd e) NewBufPair of
        (err, c2, buf) \<Rightarrow>
          (case spec_resolveEach resolveItem rest (removeLastPathElement c2) of
             (rs, c3) \<Rightarrow> ((err, buf) # rs, c3)))\<close>

definition spec_inlineData :: \<open>(error option \<times> BufPair) list \<Rightarrow> bytes\<close> where
  \<open>spec_inlineData rs = commaJoined (filter (\<lambda>x. x \<noteq> []) (map (\<lambda>res. Data (snd res)) rs))\<close>

definition spec_inlineErrors :: \<open>bytes \<Rightarrow> (error option \<times> BufPair) list \<Rightarrow> bytes\<close> where
  \<open>spec_inlineErrors errs rs = foldl spec_join_errors errs (map (\<lambda>res. Errors (snd res)) rs)\<close>

fun joinedFrom :: \<open>bool \<Rightarrow> bytes list \<Rightarrow> bytes\<close> where
  \<open>joinedFrom flag [] = []\<close>
| \<open>joinedFrom flag (x # xs) =
     (if x = [] then joinedFrom flag xs
      else (if flag then '','' else []) @ x @ joinedFrom True xs)\<close>

subsection \<open>What a walk sees of the context, and the synthetic error\<close>

text \<open>
  \<open>sameView c c'\<close>: the two contexts agree on the variables, the headers, the path elements
  and the path prefix (not on the position, the patches or the leases). \<open>keepsView f\<close>: the
  resolver \<open>f\<close> returns a context with the view of the one it was given.
  \<open>spec_unableToResolve\<close> is the error object of an unresolvable field: the message, the
  locations with one position, and the path when it has elements.
\<close>

definition sameView :: \<open>Context \<Rightarrow> Context \<Rightarrow> bool\<close> where
  \<open>sameView c c' \<longleftrightarrow>
     Variables c = Variables c' \<and> Header c = Header c' \<and> pathElements c = pathElements c'
     \<and> pathPrefix c = pathPrefix c'\<close>

definition keepsView :: \<open>(Context \<Rightarrow> bytes \<Rightarrow> BufPair \<Rightarrow> result) \<Rightarrow> bool\<close> where
  \<open>keepsView f \<longleftrightarrow> (\<forall>c d b. sameView c (fst (snd (f c d b))))\<close>

definition spec_unableToResolve :: \<open>Position \<Rightarrow> bytes list \<Rightarrow> bytes\<close> where
  \<open>spec_unableToResolve pos elems =
     ''{"message":"unable to resolve","locations":[{"line":'' @ Itoa (int (Line pos))
     @ '',"column":'' @ Itoa (int (Column pos)) @ ''}]''
     @ (if elems = [] then [] else '',"path":["'' @ Join elems ''","'' @ ''"]'')
     @ ''}''\<close>

subsection \<open>Two walks from contexts with the same view\<close>

text \<open>
  The relations between two runs of a resolver that start from contexts with the same view.
  \<open>agree strong\<close> relates the contexts: the same view and, when \<open>strong\<close>, the same position.
  \<open>related strong\<close> relates the results: the same error, contexts that agree, and the same
  buffer pair when \<open>strong\<close> or when the error is not the non-nullable-null error (the
  position is read only by \<open>addResolveError\<close>). \<open>insensitive f\<close>: the resolver \<open>f\<close> takes
  contexts that agree to results that are related. \<open>fieldRel\<close> and \<open>arrayRel\<close> relate the states
  of the two loops, \<open>sameOutcome\<close> two results with the same buffer pair. \<open>asyncTask\<close> is one task
  of an asynchronous array.
\<close>

definition agree :: \<open>bool \<Rightarrow> Context \<Rightarrow> Context \<Rightarrow> bool\<close> where
  \<open>agree strong c c' \<longleftrightarrow> sameView c c' \<and> (strong \<longrightarrow> position c = position c')\<close>

definition related :: \<open>bool \<Rightarrow> result \<Rightarrow> result \<Rightarrow> bool\<close> where
  \<open>related strong res res' \<longleftrightarrow>
     fst res = fst res' \<and> agree strong (fst (snd res)) (fst (snd res'))
     \<and> ((strong \<or> fst res \<noteq> Some errNonNullableFieldValueIsNull) \<longrightarrow> snd (snd res) = snd (snd res'))\<close>

definition insensitive :: \<open>(Context \<Rightarrow> bytes \<Rightarrow> BufPair \<Rightarrow> result) \<Rightarrow> bool\<close> where
  \<open>insensitive f \<longleftrightarrow>
     (\<forall>strong c c' d b. agree strong c c' \<longrightarrow> related strong (f c d b) (f c' d b))\<close>

definition fieldRel :: \<open>bool \<Rightarrow> fieldLoop \<Rightarrow> fieldLoop \<Rightarrow> bool\<close> where
  \<open>fieldRel strong st st' \<longleftrightarrow>
     fl_objectBuf st = fl_objectBuf st' \<and> fl_fieldBuf st = fl_fieldBuf st'
     \<and> fl_typeNameSkip st = fl_typeNameSkip st' \<and> fl_first st = fl_first st'
     \<and> agree (strong \<or> \<not> fl_first st) (fl_ctx st) (fl_ctx st')\<close>

definition arrayRel :: \<open>bool \<Rightarrow> arrayLoop \<Rightarrow> arrayLoop \<Rightarrow> bool\<close> where
  \<open>arrayRel strong st st' \<longleftrightarrow>
     al_arrayBuf st = al_arrayBuf st' \<and> al_itemBuf st = al_itemBuf st'
     \<and> al_hasPreviousItem st = al_hasPreviousItem st' \<and> al_dataWritten st = al_dataWritten st'
     \<and> agree strong (al_ctx st) (al_ctx st')\<close>

definition sameOutcome :: \<open>bool \<Rightarrow> result \<Rightarrow> result \<Rightarrow> bool\<close> where
  \<open>sameOutcome strong res res' \<longleftrightarrow>
     fst res = fst res' \<and> agree strong (fst (snd res)) (fst (snd res'))
     \<and> snd (snd res) = snd (snd res')\<close>

definition asyncTask ::
  \<open>(Context \<Rightarrow> bytes \<Rightarrow> BufPair \<Rightarrow> result) \<Rightarrow> Context \<Rightarrow> nat \<times> bytes \<Rightarrow> result\<close> where
  \<open>asyncTask resolveItem ctx = (\<lambda>(i, itemData).
     resolveItem (addPathElement (Itoa (int i)) (Clone ctx)) itemData NewBufPair)\<close>

subsection \<open>Concrete inputs\<close>

text \<open>
  A parser is a parameter of the model; at a concrete input it is given by the table of
  what \<^verbatim>\<open>jsonparser\<close> returns for the calls made there.

  The variables \<^verbatim>\<open>{"a":{"b":"x","c":[1,true,null]}}\<close>: the value at the key \<^verbatim>\<open>a\<close> is the
  object, whose entries are the string \<^verbatim>\<open>x\<close> (handed over without its quotes) and the array
  of three elements.
\<close>

definition varsJson :: bytes where
  \<open>varsJson = ''{"a":{"b":"x","c":[1,true,null]}}''\<close>

definition varsParser :: jsonparser where
  \<open>varsParser = \<lparr>
     jp_Get = (\<lambda>d p. if d = varsJson \<and> p = [''a'']
                      then (Some ''{"b":"x","c":[1,true,null]}'', jp_Object, None)
                      else (None, jp_NotExist, Some (errJson 1))),
     jp_ArrayEach = (\<lambda>d p. if d = ''[1,true,null]'' \<and> p = []
                      then ([(''1'', jp_Number), (''true'', jp_Boolean), (''null'', jp_Null)], None)
                      else ([], Some (errJson 2))),
     jp_ObjectEach = (\<lambda>d. if d = ''{"b":"x","c":[1,true,null]}''
                      then ([(''b'', ''x'', jp_String), (''c'', ''[1,true,null]'', jp_Array)], None)
                      else ([], Some (errJson 3))),
     jp_EachKey = (\<lambda>d ps. [])\<rparr>\<close>

definition varsTree :: json where
  \<open>varsTree = JObject [(''b'', JString ''x''),
                        (''c'', JArray [JNumber ''1'', JBoolean ''true'', JNull])]\<close>

text \<open>
  The elements \<^verbatim>\<open>1\<close>, \<^verbatim>\<open>2\<close>, \<^verbatim>\<open>3\<close> and \<^verbatim>\<open>null\<close> of an array of numbers: \<^verbatim>\<open>Get\<close> without keys
  returns a number as it is, and \<^verbatim>\<open>null\<close> with the type \<^verbatim>\<open>Null\<close>.
\<close>

definition numbersParser :: jsonparser where
  \<open>numbersParser = \<lparr>
     jp_Get = (\<lambda>d p. if d \<in> {''1'', ''2'', ''3''} \<and> p = [] then (Some d, jp_Number, None)
                      else if d = ''null'' \<and> p = [] then (Some d, jp_Null, None)
                      else (None, jp_NotExist, Some (errJson 1))),
     jp_ArrayEach = (\<lambda>d p. ([], Some (errJson 2))),
     jp_ObjectEach = (\<lambda>d. ([], Some (errJson 3))),
     jp_EachKey = (\<lambda>d ps. [])\<rparr>\<close>

definition numbersResolver :: Resolver where
  \<open>numbersResolver = \<lparr>parser = numbersParser, EnableSingleFlightLoader = False,
     CanonicalMIMEHeaderKey = (\<lambda>k. k), rangeOrder = (\<lambda>ks. ks),
     completionOrder = (\<lambda>n. [0..<n])\<rparr>\<close>

definition streamOne :: Stream where
  \<open>streamOne = \<lparr>Enabled = True, InitialBatchSize = 1, PatchIndex = 7\<rparr>\<close>

definition streamTwo :: Stream where
  \<open>streamTwo = \<lparr>Enabled = True, InitialBatchSize = 2, PatchIndex = 7\<rparr>\<close>


text \<open>
  The data \<^verbatim>\<open>{"hello":"world"}\<close> of the scenarios S1 and S2, alone and as the value at \<^verbatim>\<open>data\<close> of an
  envelope: the key \<^verbatim>\<open>hello\<close> holds the string \<^verbatim>\<open>world\<close>, every other key is not found; the
  envelope has the key \<^verbatim>\<open>data\<close> and no key \<^verbatim>\<open>errors\<close>, the bare object has neither. \<open>planS2\<close> is the
  plan of S2. \<open>afterOne\<close> is the loop of a synchronous array after the element \<^verbatim>\<open>1\<close>.
\<close>

definition helloJson :: bytes where \<open>helloJson = ''{"hello":"world"}''\<close>

definition helloEnvelope :: bytes where \<open>helloEnvelope = ''{"data":{"hello":"world"}}''\<close>

definition helloParser :: jsonparser where
  \<open>helloParser = \<lparr>
     jp_Get = (\<lambda>d p. if d = helloJson \<and> p = [''hello''] then (Some ''world'', jp_String, None)
                      else (None, jp_NotExist, Some (errJson 1))),
     jp_ArrayEach = (\<lambda>d p. ([], Some (errJson 2))),
     jp_ObjectEach = (\<lambda>d. ([], Some (errJson 3))),
     jp_EachKey = (\<lambda>d ps. if d = helloEnvelope \<and> ps = responsePaths
                      then [(1, Some helloJson, jp_Object)] else [])\<rparr>\<close>

definition helloResolver :: Resolver where
  \<open>helloResolver = \<lparr>parser = helloParser, EnableSingleFlightLoader = False,
     CanonicalMIMEHeaderKey = (\<lambda>k. k), rangeOrder = (\<lambda>ks. ks),
     completionOrder = (\<lambda>n. [0..<n])\<rparr>\<close>

definition fieldAt :: \<open>bytes \<Rightarrow> Node \<Rightarrow> Field\<close> where
  \<open>fieldAt n v = Field n v \<lparr>Line = 0, Column = 0\<rparr> False 0 None\<close>

definition planS2 :: GraphQLResponse where
  \<open>planS2 = GraphQLResponse (Object False []
      [fieldAt ''hello'' (String (Some [''hello'']) False),
       fieldAt ''n'' (Integer [''n''] False)] None)\<close>

definition streamOff :: Stream where
  \<open>streamOff = \<lparr>Enabled = False, InitialBatchSize = 0, PatchIndex = 0\<rparr>\<close>

definition afterOne :: arrayLoop where
  \<open>afterOne = \<lparr>al_ctx = NewContext, al_arrayBuf = \<lparr>Data = ''[1'', Errors = []\<rparr>,
     al_itemBuf = NewBufPair, al_hasPreviousItem = True, al_dataWritten = 1\<rparr>\<close>

text \<open>
  \<open>planS1\<close> is the plan of the scenario S1. \<open>usedContext\<close> is a context that was used and not
  reset: one patch is queued. \<open>streamS1\<close> streams the plan of S1 without patches.
\<close>

definition planS1 :: GraphQLResponse where
  \<open>planS1 = GraphQLResponse (Object False []
      [fieldAt ''hello'' (String (Some [''hello'']) False)] None)\<close>

definition usedContext :: Context where
  \<open>usedContext = addPatch 0 ''/data/x'' None ''{}'' NewContext\<close>

definition streamS1 :: GraphQLStreamingResponse where
  \<open>streamS1 = \<lparr>InitialResponse = planS1, Patches = [], FlushInterval = 10\<rparr>\<close>

section \<open>Properties\<close>

subsection \<open>Merging buffer pairs\<close>

text \<open>
  C3, as the code has it: \<open>MergeBufPairs\<close> appends \<^verbatim>\<open>from.data\<close> to \<^verbatim>\<open>to.data\<close>, with a comma
  before it if and only if \<^verbatim>\<open>from.data\<close> is non-empty and the flag is set (the content of
  \<^verbatim>\<open>to.data\<close> is not looked at); it appends \<^verbatim>\<open>from.errors\<close> to \<^verbatim>\<open>to.errors\<close>, with a comma
  before it if and only if both are non-empty; and it leaves \<^verbatim>\<open>from\<close> empty.
\<close>

theorem merge_appends:
  \<open>Data (snd (MergeBufPairs from to prefixWithComma)) =
      Data to @ (if Data from \<noteq> [] \<and> prefixWithComma then '','' else []) @ Data from
   \<and> Errors (snd (MergeBufPairs from to prefixWithComma)) =
      Errors to @ (if Errors from \<noteq> [] \<and> Errors to \<noteq> [] then '','' else []) @ Errors from
   \<and> Data (fst (MergeBufPairs from to prefixWithComma)) = []
   \<and> Errors (fst (MergeBufPairs from to prefixWithComma)) = []\<close>
  by (simp add: MergeBufPairs_def MergeBufPairData_def MergeBufPairErrors_def HasData_def
      HasErrors_def writeData_def writeErrors_def comma_def Let_def)

text \<open>
  C3 as the spec states it fails where \<^verbatim>\<open>to.data\<close> is empty and the flag is set: the code
  writes the comma, the spec's wording does not.
\<close>

theorem merge_comma_counterexample:
  \<open>Data (snd (MergeBufPairs \<lparr>Data = ''1'', Errors = []\<rparr> \<lparr>Data = [], Errors = []\<rparr> True)) = '',1''
   \<and> Data (snd (MergeBufPairs \<lparr>Data = ''1'', Errors = []\<rparr> \<lparr>Data = [], Errors = []\<rparr> True))
       \<noteq> spec_merge_data \<lparr>Data = ''1'', Errors = []\<rparr> \<lparr>Data = [], Errors = []\<rparr> True\<close>
  by (simp add: MergeBufPairs_def MergeBufPairData_def MergeBufPairErrors_def HasData_def
      HasErrors_def writeData_def writeErrors_def comma_def Let_def spec_merge_data_def)

subsection \<open>The response envelope\<close>

text \<open>
  C5: on a writer that is a byte buffer, \<open>writeGraphqlResponse\<close> emits an opening brace; the
  key \<^verbatim>\<open>"errors"\<close> with the errors bytes in brackets and a comma, if and only if the errors
  buffer is non-empty; the key \<^verbatim>\<open>"data"\<close>, with the data bytes when \<^verbatim>\<open>ignoreData\<close> is false and
  the data buffer is non-empty, and \<^verbatim>\<open>null\<close> otherwise; and a closing brace. It returns no
  error.
\<close>

theorem writeGraphqlResponse_envelope:
  \<open>writeGraphqlResponse bufferWrite buf w ignoreData =
     (None, w @ ''{''
        @ (if Errors buf \<noteq> [] then ''"errors":['' @ Errors buf @ ''],'' else [])
        @ ''"data":''
        @ (if \<not> ignoreData \<and> Data buf \<noteq> [] then Data buf else ''null'')
        @ ''}'')\<close>
  by (simp add: writeGraphqlResponse_def writeSafe_def bufferWrite_def Let_def literal_defs)

subsection \<open>Header variables\<close>

lemma writeJoined_Suc:
  \<open>writeJoined vs (Suc j) out = out @ concat (map (\<lambda>v. '','' @ v) vs)\<close>
  by (induction vs arbitrary: j out) (simp_all add: lit_COMMA_def)

lemma commaJoined_Cons:
  \<open>commaJoined (v # vs) = v @ concat (map (\<lambda>v. '','' @ v) vs)\<close>
  by (induction vs arbitrary: v) simp_all

lemma writeJoined_commaJoined:
  \<open>writeJoined vs 0 out = out @ commaJoined vs\<close>
  by (cases vs) (simp_all add: writeJoined_Suc commaJoined_Cons del: commaJoined.simps(2,3))

text \<open>
  C6: rendering a header variable fails with \<open>errHeaderPathInvalid\<close> if and only if the path
  does not have exactly one element. With the one-element path \<open>[k]\<close> it succeeds and appends
  the values of the header with the canonical name of \<open>k\<close>, joined by commas: the single
  value, the joined values of a multi-valued header, and nothing for an absent or empty one.
\<close>

theorem renderHeaderVariable_spec:
  \<open>(fst (renderHeaderVariable canon header path out) = Some errHeaderPathInvalid
      \<longleftrightarrow> length path \<noteq> 1)
   \<and> renderHeaderVariable canon header [k] out = (None, out @ commaJoined (header (canon k)))\<close>
proof -
  have a: \<open>fst (renderHeaderVariable canon header path out) = Some errHeaderPathInvalid
      \<longleftrightarrow> length path \<noteq> 1\<close>
    by (simp add: renderHeaderVariable_def Let_def)
  have b: \<open>renderHeaderVariable canon header [k] out = (None, out @ commaJoined (header (canon k)))\<close>
  proof (cases \<open>header (canon k)\<close>)
    case Nil
    then show ?thesis by (simp add: renderHeaderVariable_def)
  next
    case (Cons v vs)
    then show ?thesis
      by (cases vs) (simp_all add: renderHeaderVariable_def writeJoined_commaJoined del: writeJoined.simps)
  qed
  from a b show ?thesis by blast
qed

subsection \<open>Context variables as GraphQL literals\<close>

lemma objectLoop_rest:
  assumes \<open>list_all2 (\<lambda>kv entry. fst kv = fst entry \<and> length (fst (snd entry)) < length d
                       \<and> represents jp (snd kv) (fst (snd entry)) (snd (snd entry))) kvs entries\<close>
    and \<open>\<And>kv d' t' b'. kv \<in> set kvs \<Longrightarrow> represents jp (snd kv) d' t' \<Longrightarrow>
           renderGraphQLValue jp d' t' b' = (None, b' @ graphqlLiteral (snd kv))\<close>
  shows \<open>iterate (objectBody jp d) entries (False, b) =
     Next (False, b @ concat (map (\<lambda>kv. '','' @ fst kv @ '':'' @ graphqlLiteral (snd kv)) kvs))\<close>
  using assms
proof (induction kvs entries arbitrary: b rule: list_all2_induct)
  case Nil
  then show ?case by simp
next
  case (Cons kv kvs entry entries)
  have r: \<open>renderGraphQLValue jp (fst (snd entry)) (snd (snd entry)) (b @ '','' @ fst entry @ '':'')
      = (None, (b @ '','' @ fst entry @ '':'') @ graphqlLiteral (snd kv))\<close>
    using Cons.prems(1)[of kv] Cons.hyps(1) by simp
  have step: \<open>objectBody jp d entry (False, b)
      = Next (False, b @ '','' @ fst kv @ '':'' @ graphqlLiteral (snd kv))\<close>
    using Cons.hyps(1) r by (simp add: objectBody_def lit_COMMA_def lit_COLON_def)
  show ?case
    using Cons.IH[of \<open>b @ '','' @ fst kv @ '':'' @ graphqlLiteral (snd kv)\<close>] Cons.prems step
    by simp
qed

lemma objectLoop:
  assumes \<open>list_all2 (\<lambda>kv entry. fst kv = fst entry \<and> length (fst (snd entry)) < length d
                       \<and> represents jp (snd kv) (fst (snd entry)) (snd (snd entry))) kvs entries\<close>
    and \<open>\<And>kv d' t' b'. kv \<in> set kvs \<Longrightarrow> represents jp (snd kv) d' t' \<Longrightarrow>
           renderGraphQLValue jp d' t' b' = (None, b' @ graphqlLiteral (snd kv))\<close>
  shows \<open>\<exists>f. iterate (objectBody jp d) entries (True, b) =
     Next (f, b @ commaJoined (map (\<lambda>kv. fst kv @ '':'' @ graphqlLiteral (snd kv)) kvs))\<close>
proof (cases kvs)
  case Nil
  with assms(1) show ?thesis by auto
next
  case (Cons kv kvs')
  with assms(1) obtain entry entries' where e: \<open>entries = entry # entries'\<close>
    and h: \<open>fst kv = fst entry\<close> \<open>length (fst (snd entry)) < length d\<close>
      \<open>represents jp (snd kv) (fst (snd entry)) (snd (snd entry))\<close>
    and rest: \<open>list_all2 (\<lambda>kv entry. fst kv = fst entry \<and> length (fst (snd entry)) < length d
                       \<and> represents jp (snd kv) (fst (snd entry)) (snd (snd entry))) kvs' entries'\<close>
    by (auto simp: list_all2_Cons1)
  have r: \<open>renderGraphQLValue jp (fst (snd entry)) (snd (snd entry)) (b @ fst entry @ '':'')
      = (None, (b @ fst entry @ '':'') @ graphqlLiteral (snd kv))\<close>
    using assms(2)[of kv] h Cons by simp
  have step: \<open>objectBody jp d entry (True, b)
      = Next (False, b @ fst kv @ '':'' @ graphqlLiteral (snd kv))\<close>
    using h r by (simp add: objectBody_def lit_COMMA_def lit_COLON_def)
  have \<open>iterate (objectBody jp d) entries' (False, b @ fst kv @ '':'' @ graphqlLiteral (snd kv))
     = Next (False, (b @ fst kv @ '':'' @ graphqlLiteral (snd kv))
          @ concat (map (\<lambda>kv. '','' @ fst kv @ '':'' @ graphqlLiteral (snd kv)) kvs'))\<close>
    using objectLoop_rest[OF rest] assms(2) Cons by simp
  then show ?thesis
    using e step Cons by (auto simp add: commaJoined_Cons comp_def simp del: commaJoined.simps)
qed

lemma arrayLoop_rest:
  assumes \<open>list_all2 (\<lambda>v elem. length (fst elem) < length d
                       \<and> represents jp v (fst elem) (snd elem)) vs elems\<close>
    and \<open>\<And>v d' t' b'. v \<in> set vs \<Longrightarrow> represents jp v d' t' \<Longrightarrow>
           renderGraphQLValue jp d' t' b' = (None, b' @ graphqlLiteral v)\<close>
  shows \<open>iterate (arrayBody jp d) elems (False, None, b) =
     Next (False, None, b @ concat (map (\<lambda>v. '','' @ graphqlLiteral v) vs))\<close>
  using assms
proof (induction vs elems arbitrary: b rule: list_all2_induct)
  case Nil
  then show ?case by simp
next
  case (Cons v vs elem elems)
  have r: \<open>renderGraphQLValue jp (fst elem) (snd elem) (b @ '','')
      = (None, (b @ '','') @ graphqlLiteral v)\<close>
    using Cons.prems(1)[of v] Cons.hyps(1) by simp
  have step: \<open>arrayBody jp d elem (False, None, b) = Next (False, None, b @ '','' @ graphqlLiteral v)\<close>
    using Cons.hyps(1) r by (simp add: arrayBody_def lit_COMMA_def)
  show ?case
    using Cons.IH[of \<open>b @ '','' @ graphqlLiteral v\<close>] Cons.prems step by simp
qed

lemma arrayLoop:
  assumes \<open>list_all2 (\<lambda>v elem. length (fst elem) < length d
                       \<and> represents jp v (fst elem) (snd elem)) vs elems\<close>
    and \<open>\<And>v d' t' b'. v \<in> set vs \<Longrightarrow> represents jp v d' t' \<Longrightarrow>
           renderGraphQLValue jp d' t' b' = (None, b' @ graphqlLiteral v)\<close>
  shows \<open>\<exists>f. iterate (arrayBody jp d) elems (True, None, b) =
     Next (f, None, b @ commaJoined (map graphqlLiteral vs))\<close>
proof (cases vs)
  case Nil
  with assms(1) show ?thesis by auto
next
  case (Cons v vs')
  with assms(1) obtain elem elems' where e: \<open>elems = elem # elems'\<close>
    and h: \<open>length (fst elem) < length d\<close> \<open>represents jp v (fst elem) (snd elem)\<close>
    and rest: \<open>list_all2 (\<lambda>v elem. length (fst elem) < length d
                       \<and> represents jp v (fst elem) (snd elem)) vs' elems'\<close>
    by (auto simp: list_all2_Cons1)
  have r: \<open>renderGraphQLValue jp (fst elem) (snd elem) b = (None, b @ graphqlLiteral v)\<close>
    using assms(2)[of v] h Cons by simp
  have step: \<open>arrayBody jp d elem (True, None, b) = Next (False, None, b @ graphqlLiteral v)\<close>
    using h r by (simp add: arrayBody_def)
  have \<open>iterate (arrayBody jp d) elems' (False, None, b @ graphqlLiteral v)
     = Next (False, None, (b @ graphqlLiteral v) @ concat (map (\<lambda>v. '','' @ graphqlLiteral v) vs'))\<close>
    using arrayLoop_rest[OF rest] assms(2) Cons by simp
  then show ?thesis
    using e step Cons by (auto simp add: commaJoined_Cons comp_def simp del: commaJoined.simps)
qed

lemma renderGraphQLValue_literal:
  \<open>represents jp j d t \<Longrightarrow> renderGraphQLValue jp d t buf = (None, buf @ graphqlLiteral j)\<close>
proof (induction j arbitrary: d t buf)
  case (JString s)
  then show ?case
    by (simp add: renderGraphQLValue.simps lit_BACKSLASH_def lit_QUOTE_def)
next
  case (JNumber n)
  then show ?case by (simp add: renderGraphQLValue.simps)
next
  case (JBoolean b)
  then show ?case by (simp add: renderGraphQLValue.simps)
next
  case JNull
  then show ?case by (simp add: renderGraphQLValue.simps lit_NULL_def)
next
  case (JObject kvs)
  have ih: \<open>\<And>kv d' t' b'. kv \<in> set kvs \<Longrightarrow> represents jp (snd kv) d' t' \<Longrightarrow>
           renderGraphQLValue jp d' t' b' = (None, b' @ graphqlLiteral (snd kv))\<close>
    proof -
    fix kv d' t' b' assume a: \<open>kv \<in> set kvs\<close> \<open>represents jp (snd kv) d' t'\<close>
    have \<open>snd kv \<in> Basic_BNFs.snds kv\<close> by (cases kv) (simp add: snds.simps)
    from JObject.IH[OF a(1) this a(2)] show \<open>renderGraphQLValue jp d' t' b' = (None, b' @ graphqlLiteral (snd kv))\<close> .
  qed
  from JObject.prems have t: \<open>t = jp_Object\<close> and noerr: \<open>snd (jp_ObjectEach jp d) = None\<close>
    and all: \<open>list_all2 (\<lambda>kv entry. fst kv = fst entry \<and> length (fst (snd entry)) < length d
                       \<and> represents jp (snd kv) (fst (snd entry)) (snd (snd entry)))
           kvs (fst (jp_ObjectEach jp d))\<close>
    by simp_all
  from objectLoop[OF all ih, of \<open>buf @ ''{''\<close>] obtain f where
    \<open>iterate (objectBody jp d) (fst (jp_ObjectEach jp d)) (True, buf @ ''{'') =
       Next (f, (buf @ ''{'') @ commaJoined (map (\<lambda>kv. fst kv @ '':'' @ graphqlLiteral (snd kv)) kvs))\<close>
    by blast
  then show ?case
    using t noerr
    by (simp add: renderGraphQLValue_Object lit_LBRACE_def lit_RBRACE_def)
next
  case (JArray vs)
  have ih: \<open>\<And>v d' t' b'. v \<in> set vs \<Longrightarrow> represents jp v d' t' \<Longrightarrow>
           renderGraphQLValue jp d' t' b' = (None, b' @ graphqlLiteral v)\<close>
    using JArray.IH by blast
  from JArray.prems have t: \<open>t = jp_Array\<close> and noerr: \<open>snd (jp_ArrayEach jp d []) = None\<close>
    and all: \<open>list_all2 (\<lambda>v elem. length (fst elem) < length d
                       \<and> represents jp v (fst elem) (snd elem)) vs (fst (jp_ArrayEach jp d []))\<close>
    by simp_all
  from arrayLoop[OF all ih, of \<open>buf @ ''[''\<close>] obtain f where
    \<open>iterate (arrayBody jp d) (fst (jp_ArrayEach jp d [])) (True, None, buf @ ''['') =
       Next (f, None, (buf @ ''['') @ commaJoined (map graphqlLiteral vs))\<close>
    by blast
  then show ?case
    using t noerr
    by (simp add: renderGraphQLValue_Array lit_LBRACK_def lit_RBRACK_def)
qed

text \<open>
  C7: when the parser finds at the segment's path a value that it reads as the JSON tree
  \<open>j\<close>, rendering the context variable with \<^verbatim>\<open>renderAsGraphQLValue\<close> set appends the GraphQL
  literal of \<open>j\<close>: a string between backslash-escaped quotes, an object in braces with
  unquoted keys and transcoded values, an array in brackets with transcoded elements,
  \<^verbatim>\<open>null\<close>, booleans and numbers unchanged. With the flag unset it appends the value as the
  parser returned it.
\<close>

theorem renderContextVariable_transcodes:
  assumes \<open>jp_Get jp (Variables ctx) p = (v, t, None)\<close>
    and \<open>represents jp j (bytes_of v) t\<close>
  shows \<open>renderContextVariable jp ctx p True out = (None, out @ graphqlLiteral j)
       \<and> renderContextVariable jp ctx p False out = (None, out @ bytes_of v)\<close>
  using assms by (simp add: renderContextVariable_def renderGraphQLValue_literal)


theorem renderContextVariable_transcodes_witness:
  \<open>jp_Get varsParser (Variables (NewContext\<lparr>Variables := varsJson\<rparr>)) [''a'']
      = (Some ''{"b":"x","c":[1,true,null]}'', jp_Object, None)
   \<and> represents varsParser varsTree (bytes_of (Some ''{"b":"x","c":[1,true,null]}'')) jp_Object
   \<and> renderContextVariable varsParser (NewContext\<lparr>Variables := varsJson\<rparr>) [''a''] True ''q=''
      = (None, ''q={b:'' @ [CHR 0x5C] @ ''"x'' @ [CHR 0x5C] @ ''",c:[1,true,null]}'')
   \<and> renderContextVariable varsParser (NewContext\<lparr>Variables := varsJson\<rparr>) [''a''] False ''q=''
      = (None, ''q={"b":"x","c":[1,true,null]}'')\<close>
proof -
  have g: \<open>jp_Get varsParser (Variables (NewContext\<lparr>Variables := varsJson\<rparr>)) [''a'']
      = (Some ''{"b":"x","c":[1,true,null]}'', jp_Object, None)\<close>
    by (simp add: varsParser_def)
  have r: \<open>represents varsParser varsTree (bytes_of (Some ''{"b":"x","c":[1,true,null]}'')) jp_Object\<close>
    by (simp add: varsParser_def varsTree_def bytes_of_def)
  from renderContextVariable_transcodes [OF g r, of \<open>''q=''\<close>] g r show ?thesis
    by (simp add: varsTree_def bytes_of_def)
qed

subsection \<open>The caller's data is an envelope\<close>

lemma errorParts_fold:
  \<open>foldl (\<lambda>(message, locations, pth, extensions) (i, b, valueType).
              if i = (0::nat) then (b, locations, pth, extensions)
              else if i = 1 then (message, b, pth, extensions)
              else if i = 2 then (message, locations, b, extensions)
              else if i = 3 then (message, locations, pth, b)
              else (message, locations, pth, extensions)) (m, l, p, e) xs
   = ((case filter (\<lambda>(k, b, t). k = 0) xs of [] \<Rightarrow> m | y # ys \<Rightarrow> fst (snd (last (y # ys)))),
      (case filter (\<lambda>(k, b, t). k = 1) xs of [] \<Rightarrow> l | y # ys \<Rightarrow> fst (snd (last (y # ys)))),
      (case filter (\<lambda>(k, b, t). k = 2) xs of [] \<Rightarrow> p | y # ys \<Rightarrow> fst (snd (last (y # ys)))),
      (case filter (\<lambda>(k, b, t). k = 3) xs of [] \<Rightarrow> e | y # ys \<Rightarrow> fst (snd (last (y # ys)))))\<close>
proof (induction xs arbitrary: m l p e)
  case Nil
  then show ?case by simp
next
  case (Cons x xs)
  obtain i b t where x: \<open>x = (i, b, t)\<close> by (cases x)
  show ?case
    unfolding x foldl_Cons
    by (simp add: Cons.IH split: list.splits)
qed

lemma errorParts_spec:
  \<open>errorParts jp v = (spec_errorPart jp v 0, spec_errorPart jp v 1, spec_errorPart jp v 2,
                       spec_errorPart jp v 3)\<close>
  unfolding errorParts_def index_defs errorParts_fold spec_errorPart_def by simp

lemma WriteErr_Data [simp]: \<open>Data (WriteErr m l p e b) = Data b\<close>
  by (simp add: WriteErr_def writeErrors_def)

lemma WriteErr_Errors:
  \<open>Errors (WriteErr m l p e b) =
     spec_join_errors (Errors b)
       (''{"message":"'' @ m @ ''"''
        @ (case l of None \<Rightarrow> [] | Some x \<Rightarrow> '',"locations":'' @ x)
        @ (case p of None \<Rightarrow> [] | Some x \<Rightarrow> '',"path":'' @ x)
        @ (case e of None \<Rightarrow> [] | Some x \<Rightarrow> '',"extensions":'' @ x)
        @ ''}'')\<close>
  by (simp add: WriteErr_def writeErrors_def HasErrors_def errPart_def literal_defs
      spec_join_errors_def split: option.splits)

lemma spec_errorObject_nonempty: \<open>spec_errorObject jp v = Some obj \<Longrightarrow> obj \<noteq> []\<close>
  by (auto simp: spec_errorObject_def split: option.splits)


lemma commaJoined_nonempty:
  \<open>xs \<noteq> [] \<Longrightarrow> \<forall>x \<in> set xs. x \<noteq> [] \<Longrightarrow> commaJoined xs \<noteq> []\<close>
  by (cases xs) (simp_all add: commaJoined_Cons del: commaJoined.simps)

lemma foldl_join_nonempty:
  \<open>\<forall>x \<in> set xs. x \<noteq> [] \<Longrightarrow>
     foldl spec_join_errors e xs = spec_join_errors e (commaJoined xs)\<close>
proof (induction xs arbitrary: e)
  case Nil
  then show ?case by (simp add: spec_join_errors_def)
next
  case (Cons x xs)
  have x: \<open>x \<noteq> []\<close> using Cons.prems by simp
  have ih: \<open>foldl spec_join_errors (spec_join_errors e x) xs
      = spec_join_errors (spec_join_errors e x) (commaJoined xs)\<close>
    using Cons by simp
  show ?case
  proof (cases \<open>xs = []\<close>)
    case True
    then show ?thesis by (simp add: spec_join_errors_def)
  next
    case False
    then have ne: \<open>commaJoined xs \<noteq> []\<close>
      using commaJoined_nonempty Cons.prems by simp
    have c: \<open>commaJoined (x # xs) = x @ '','' @ commaJoined xs\<close>
      using False by (cases xs) simp_all
    show ?thesis
      unfolding foldl_Cons ih c using x ne by (simp add: spec_join_errors_def)
  qed
qed

lemma map_filter_nonempty:
  \<open>\<forall>x \<in> set (List.map_filter (spec_errorObject jp) vs). x \<noteq> []\<close>
  by (auto simp: List.map_filter_def dest: spec_errorObject_nonempty[OF sym] spec_errorObject_nonempty)

lemma WriteErr_eq:
  \<open>WriteErr m l p e b =
     b\<lparr>Errors := spec_join_errors (Errors b)
       (''{"message":"'' @ m @ ''"''
        @ (case l of None \<Rightarrow> [] | Some x \<Rightarrow> '',"locations":'' @ x)
        @ (case p of None \<Rightarrow> [] | Some x \<Rightarrow> '',"path":'' @ x)
        @ (case e of None \<Rightarrow> [] | Some x \<Rightarrow> '',"extensions":'' @ x)
        @ ''}'')\<rparr>\<close>
  by (simp add: WriteErr_def writeErrors_def HasErrors_def errPart_def literal_defs
      spec_join_errors_def split: option.splits)

lemma extractErrors_step:
  \<open>(case errorParts jp v of
       (message, locations, pth, extensions) \<Rightarrow>
         (case message of
            Some m \<Rightarrow> WriteErr m locations pth extensions bp
          | None \<Rightarrow> bp))
   = bp\<lparr>Errors := (case spec_errorObject jp v of
                      None \<Rightarrow> Errors bp
                    | Some obj \<Rightarrow> spec_join_errors (Errors bp) obj)\<rparr>\<close>
  by (simp add: errorParts_spec spec_errorObject_def WriteErr_eq split: option.splits)

lemma extractErrors_fold:
  \<open>foldl (\<lambda>bp (v, dataType).
              bp\<lparr>Errors := (case spec_errorObject jp v of
                      None \<Rightarrow> Errors bp
                    | Some obj \<Rightarrow> spec_join_errors (Errors bp) obj)\<rparr>) bp elems
   = bp\<lparr>Errors := foldl spec_join_errors (Errors bp)
                      (List.map_filter (spec_errorObject jp) (map fst elems))\<rparr>\<close>
proof (induction elems arbitrary: bp)
  case Nil
  then show ?case by (simp add: List.map_filter_simps)
next
  case (Cons x elems)
  obtain v t where x: \<open>x = (v, t)\<close> by (cases x)
  show ?case
    unfolding x foldl_Cons prod.case Cons.IH
    by (simp add: List.map_filter_simps split: option.splits)
qed

lemma extractErrors_spec:
  \<open>extractErrors jp b bp
   = bp\<lparr>Errors := foldl spec_join_errors (Errors bp)
                      (List.map_filter (spec_errorObject jp) (map fst (fst (jp_ArrayEach jp b []))))\<rparr>\<close>
  unfolding extractErrors_def extractErrors_step extractErrors_fold by (rule refl)

lemma extractResponse_fold:
  \<open>foldl (\<lambda>bp (i, b, valueType).
                 if i = (0::nat) then extractErrors jp (bytes_of b) bp
                 else if i = 1 then writeData (bytes_of b) bp
                 else bp) bp xs
   = \<lparr>Data = Data bp @ concat (map (\<lambda>x. bytes_of (fst (snd x))) (filter (\<lambda>x. fst x = 1) xs)),
      Errors = foldl spec_join_errors (Errors bp)
         (List.map_filter (spec_errorObject jp)
            (concat (map (\<lambda>x. map fst (fst (jp_ArrayEach jp (bytes_of (fst (snd x))) [])))
                       (filter (\<lambda>x. fst x = 0) xs))))\<rparr>\<close>
proof (induction xs arbitrary: bp)
  case Nil
  then show ?case by (simp add: List.map_filter_simps)
next
  case (Cons x xs)
  obtain i b t where x: \<open>x = (i, b, t)\<close> by (cases x)
  show ?case
    unfolding x foldl_Cons prod.case Cons.IH
    by (simp add: extractErrors_spec writeData_def List.map_filter_def)
qed

lemma extractResponse_envelope:
  \<open>extractResponse jp d NewBufPair \<lparr>ExtractGraphqlResponse = True, ExtractFederationEntities = False\<rparr>
   = \<lparr>Data = spec_envelope_data jp d, Errors = spec_envelope_errors jp d\<rparr>\<close>
proof (cases \<open>d = []\<close>)
  case True
  then show ?thesis
    by (simp add: extractResponse_def spec_envelope_data_def spec_envelope_errors_def NewBufPair_def)
next
  case False
  have j: \<open>foldl spec_join_errors [] (List.map_filter (spec_errorObject jp) vs)
      = commaJoined (List.map_filter (spec_errorObject jp) vs)\<close> for vs
    using foldl_join_nonempty[OF map_filter_nonempty, where e = \<open>[]\<close> and jp1 = jp and vs1 = vs]
    by (simp add: spec_join_errors_def)
  from False show ?thesis
    unfolding extractResponse_def index_defs ProcessResponseConfig.select_convs if_False
      extractResponse_fold
    by (simp add: j spec_envelope_data_def spec_envelope_errors_def NewBufPair_def)
qed

lemma writeGraphqlResponse_buffer:
  \<open>writeGraphqlResponse bufferWrite buf w ignoreData =
     (None, w @ ''{''
        @ (if Errors buf \<noteq> [] then ''"errors":['' @ Errors buf @ ''],'' else [])
        @ ''"data":''
        @ (if \<not> ignoreData \<and> Data buf \<noteq> [] then Data buf else ''null'')
        @ ''}'')\<close>
  by (simp add: writeGraphqlResponse_def writeSafe_def bufferWrite_def Let_def literal_defs)

lemma MergeBufPairErrors_to:
  \<open>snd (MergeBufPairErrors from to) = to\<lparr>Errors := spec_join_errors (Errors to) (Errors from)\<rparr>\<close>
  by (simp add: MergeBufPairErrors_def HasErrors_def writeErrors_def comma_def
      spec_join_errors_def Let_def)

text \<open>
  C10: \<open>ResolveGraphQLResponse\<close> walks the plan against the value at \<^verbatim>\<open>data\<close> of the caller's
  bytes, not against the bytes. When the walk ends without an error or with the
  non-nullable-null error, the response is written, and its errors are the errors of the
  walk followed by the errors of the envelope that carry a message. Any other error of the
  walk is returned and nothing is written.
\<close>

theorem ResolveGraphQLResponse_envelope:
  \<open>ResolveGraphQLResponse r bufferWrite ctx response d w =
     (case resolveNode r (ResponseData response) ctx (spec_envelope_data (parser r) d) NewBufPair of
        (err, ctx1, buf) \<Rightarrow>
          if err \<noteq> None \<and> err \<noteq> Some errNonNullableFieldValueIsNull then (err, ctx1, w)
          else (None, ctx1,
                w @ ''{''
                @ (if spec_join_errors (Errors buf) (spec_envelope_errors (parser r) d) \<noteq> []
                   then ''"errors":[''
                        @ spec_join_errors (Errors buf) (spec_envelope_errors (parser r) d)
                        @ ''],''
                   else [])
                @ ''"data":''
                @ (if err = None \<and> Data buf \<noteq> [] then Data buf else ''null'')
                @ ''}''))\<close>
proof -
  obtain err ctx1 buf where
    walk: \<open>resolveNode r (ResponseData response) ctx (spec_envelope_data (parser r) d) NewBufPair
           = (err, ctx1, buf)\<close>
    by (cases \<open>resolveNode r (ResponseData response) ctx (spec_envelope_data (parser r) d) NewBufPair\<close>)
  show ?thesis
    unfolding ResolveGraphQLResponse_def extractResponse_envelope Let_def
    by (simp add: walk writeGraphqlResponse_buffer MergeBufPairErrors_to spec_join_errors_def)
qed

subsection \<open>Streaming arrays\<close>

lemma digit_not_a: \<open>k < 10 \<Longrightarrow> digit k \<noteq> CHR ''a''\<close>
proof -
  assume \<open>k < 10\<close>
  then have \<open>k \<in> {0, 1, 2, 3, 4, 5, 6, 7, 8, 9}\<close> by auto
  then show ?thesis by (auto simp: digit_def)
qed

lemma last_natDigits: \<open>last (natDigits n) = digit (n mod 10)\<close>
  by (subst natDigits.simps) simp

lemma Itoa_not_data: \<open>Itoa (int i) \<noteq> ''data''\<close>
proof
  assume \<open>Itoa (int i) = ''data''\<close>
  then have \<open>last (natDigits i) = CHR ''a''\<close> by (simp add: Itoa_def)
  then show False using digit_not_a[of \<open>i mod 10\<close>] by (simp add: last_natDigits)
qed

lemma indexed_snoc: \<open>indexed (xs @ [e]) = indexed xs @ [(length xs, e)]\<close>
  by (simp add: indexed_def)

lemma indexed_fst_less: \<open>(i, x) \<in> set (indexed xs) \<Longrightarrow> i < length xs\<close>
  by (auto simp: indexed_def dest: set_zip_leftD)

lemma pathBytes_snoc:
  assumes \<open>e \<noteq> lit_DATA\<close>
  shows \<open>pathBytes (c\<lparr>pathElements := pathElements c @ [e]\<rparr>) = pathBytes c @ ''/'' @ e\<close>
proof -
  have m: \<open>map (\<lambda>(i, x). if i = 0 \<and> lit_DATA = (pathElements c @ [e]) ! 0 then []
                               else lit_SLASH @ x) (indexed (pathElements c))
      = map (\<lambda>(i, x). if i = 0 \<and> lit_DATA = pathElements c ! 0 then []
                               else lit_SLASH @ x) (indexed (pathElements c))\<close>
  proof (rule map_cong[OF refl])
    fix z assume z: \<open>z \<in> set (indexed (pathElements c))\<close>
    obtain i x where zz: \<open>z = (i, x)\<close> by (cases z)
    with z have \<open>i < length (pathElements c)\<close> using indexed_fst_less by fastforce
    then have \<open>(pathElements c @ [e]) ! 0 = pathElements c ! 0\<close>
      by (cases \<open>pathElements c\<close>) simp_all
    then show \<open>(case z of (i, x) \<Rightarrow> if i = 0 \<and> lit_DATA = (pathElements c @ [e]) ! 0 then []
                               else lit_SLASH @ x)
        = (case z of (i, x) \<Rightarrow> if i = 0 \<and> lit_DATA = pathElements c ! 0 then []
                               else lit_SLASH @ x)\<close>
      by (simp add: zz)
  qed
  have l: \<open>(if length (pathElements c) = 0 \<and> lit_DATA = (pathElements c @ [e]) ! 0 then []
            else lit_SLASH @ e) = ''/'' @ e\<close>
    using assms by (cases \<open>pathElements c\<close>) (auto simp: lit_SLASH_def)
  show ?thesis
    unfolding pathBytes_def using assms by (simp add: indexed_snoc m l lit_SLASH_def)
qed

lemma enqueue_step:
  \<open>removeLastPathElement (preparePatch idx None item (addIntegerPathElement (int i) c))
   = c\<lparr>patches := patches c @ [\<lparr>patch_path = pathBytes c @ ''/'' @ Itoa (int i),
                                   patch_extraPath = None, patch_data = item, patch_index = idx\<rparr>],
       maxPatch := maxPatch c + 1,
       usedBuffers := usedBuffers c @ [item, pathBytes c @ ''/'' @ Itoa (int i)]\<rparr>\<close>
proof -
  have p: \<open>pathBytes (c\<lparr>pathElements := pathElements c @ [Itoa (int i)]\<rparr>)
      = pathBytes c @ ''/'' @ Itoa (int i)\<close>
    using pathBytes_snoc[of \<open>Itoa (int i)\<close> c] Itoa_not_data[of i] by (simp add: lit_DATA_def)
  have q: \<open>pathBytes (c\<lparr>pathElements := pathElements c @ [Itoa (int i)],
                        usedBuffers := usedBuffers c @ [item]\<rparr>)
      = pathBytes c @ ''/'' @ Itoa (int i)\<close>
    using p by (simp add: pathBytes_def)
  show ?thesis
    by (simp add: removeLastPathElement_def preparePatch_def addIntegerPathElement_def
        path_ctx_def addPatch_def q Let_def)
qed


lemma spec_enqueue_Nil: \<open>spec_enqueue stream [] c = c\<close>
  by (simp add: spec_enqueue_def)

lemma spec_enqueue_Cons:
  \<open>spec_enqueue stream ((i, item) # rest) c =
     spec_enqueue stream rest
       (removeLastPathElement
          (preparePatch (PatchIndex stream) None item (addIntegerPathElement (int i) c)))\<close>
  unfolding enqueue_step
  by (simp add: spec_enqueue_def spec_streamPatch_def pathBytes_def)

lemma stream_tail:
  assumes \<open>Enabled stream\<close>
    and \<open>\<forall>z \<in> set rest. int (fst z) > sint (InitialBatchSize stream - 1)\<close>
  shows \<open>iterate (arrayItemStep resolveItem nullable stream) rest st
       = Next (st\<lparr>al_ctx := spec_enqueue stream rest (al_ctx st)\<rparr>)\<close>
  using assms(2)
proof (induction rest arbitrary: st)
  case Nil
  then show ?case by (simp add: spec_enqueue_Nil)
next
  case (Cons z rest)
  obtain i item where z: \<open>z = (i, item)\<close> by (cases z)
  have gt: \<open>int i > sint (InitialBatchSize stream - 1)\<close> using Cons.prems z by simp
  have step: \<open>arrayItemStep resolveItem nullable stream (i, item) st
      = Next (st\<lparr>al_ctx := removeLastPathElement
                      (preparePatch (PatchIndex stream) None item
                         (addIntegerPathElement (int i) (al_ctx st)))\<rparr>)\<close>
    using assms(1) gt by (simp add: arrayItemStep_def)
  have ih: \<open>iterate (arrayItemStep resolveItem nullable stream) rest st' =
      Next (st'\<lparr>al_ctx := spec_enqueue stream rest (al_ctx st')\<rparr>)\<close> for st'
    using Cons.IH Cons.prems by simp
  show ?case
    unfolding z iterate.simps step step.case ih spec_enqueue_Cons by simp
qed

lemma inline_prefix:
  assumes \<open>\<forall>z \<in> set pre. \<not> int (fst z) > sint (InitialBatchSize stream - 1)\<close>
  shows \<open>iterate (arrayItemStep resolveItem nullable stream) pre st
       = iterate (arrayItemStep resolveItem nullable (stream\<lparr>Enabled := False\<rparr>)) pre st\<close>
proof (rule iterate_cong[OF refl refl])
  fix z u assume \<open>z \<in> set pre\<close>
  then have \<open>\<not> int (fst z) > sint (InitialBatchSize stream - 1)\<close> using assms by blast
  then show \<open>arrayItemStep resolveItem nullable stream z u
      = arrayItemStep resolveItem nullable (stream\<lparr>Enabled := False\<rparr>) z u\<close>
    by (cases z) (simp add: arrayItemStep_def)
qed

lemma indexed_take_less:
  \<open>z \<in> set (take n (indexed xs)) \<Longrightarrow> fst z < n\<close>
proof -
  assume a: \<open>z \<in> set (take n (indexed xs))\<close>
  obtain i x where z: \<open>z = (i, x)\<close> by (cases z)
  from a z have \<open>(i, x) \<in> set (zip (take n [0..<length xs]) (take n xs))\<close>
    by (simp add: indexed_def take_zip)
  then have \<open>i \<in> set (take n [0..<length xs])\<close> by (rule set_zip_leftD)
  then show ?thesis using z by (auto simp: in_set_conv_nth)
qed

lemma indexed_drop_ge:
  \<open>z \<in> set (drop n (indexed xs)) \<Longrightarrow> n \<le> fst z\<close>
proof -
  assume a: \<open>z \<in> set (drop n (indexed xs))\<close>
  obtain i x where z: \<open>z = (i, x)\<close> by (cases z)
  from a z have \<open>(i, x) \<in> set (zip (drop n [0..<length xs]) (drop n xs))\<close>
    by (simp add: indexed_def drop_zip)
  then have \<open>i \<in> set (drop n [0..<length xs])\<close> by (rule set_zip_leftD)
  then show ?thesis using z by (auto simp: drop_upt)
qed

lemma MergeBufPairs_fst: \<open>fst (MergeBufPairs from to flag) = NewBufPair\<close>
  by (simp add: MergeBufPairs_def MergeBufPairData_def MergeBufPairErrors_def HasData_def
      HasErrors_def NewBufPair_def Let_def)

lemma joinedFrom_True:
  \<open>joinedFrom True xs = concat (map (\<lambda>x. '','' @ x) (filter (\<lambda>x. x \<noteq> []) xs))\<close>
  by (induction xs) simp_all

lemma commaJoined_concat:
  \<open>commaJoined (x # xs) = x @ concat (map (\<lambda>x. '','' @ x) xs)\<close>
  by (induction xs arbitrary: x) simp_all

lemma joinedFrom_False:
  \<open>joinedFrom False xs = commaJoined (filter (\<lambda>x. x \<noteq> []) xs)\<close>
proof (induction xs)
  case Nil
  then show ?case by simp
next
  case (Cons x xs)
  then show ?case
    by (simp add: joinedFrom_True commaJoined_concat)
qed

lemma MergeBufPairs_snd:
  \<open>snd (MergeBufPairs from to flag)
   = \<lparr>Data = Data to @ (if Data from = [] then [] else (if flag then '','' else []) @ Data from),
      Errors = spec_join_errors (Errors to) (Errors from)\<rparr>\<close>
  by (simp add: MergeBufPairs_def MergeBufPairData_def MergeBufPairErrors_def HasData_def
      HasErrors_def writeData_def writeErrors_def comma_def spec_join_errors_def Let_def)

lemma inline_loop:
  assumes \<open>al_itemBuf st = NewBufPair\<close>
    and \<open>al_hasPreviousItem st \<longleftrightarrow> al_dataWritten st \<noteq> 0\<close>
    and \<open>spec_resolveEach resolveItem pre (al_ctx st) = (rs, c3)\<close>
    and \<open>\<forall>res \<in> set rs. fst res = None\<close>
  shows \<open>\<exists>st'. iterate (arrayItemStep resolveItem nullable (stream\<lparr>Enabled := False\<rparr>)) pre st
               = Next st'
           \<and> al_ctx st' = c3
           \<and> al_arrayBuf st' =
                \<lparr>Data = Data (al_arrayBuf st)
                         @ joinedFrom (al_hasPreviousItem st) (map (\<lambda>res. Data (snd res)) rs),
                 Errors = foldl spec_join_errors (Errors (al_arrayBuf st))
                            (map (\<lambda>res. Errors (snd res)) rs)\<rparr>\<close>
  using assms
proof (induction pre arbitrary: st rs)
  case Nil
  then show ?case by simp
next
  case (Cons e pre)
  obtain i item where e: \<open>e = (i, item)\<close> by (cases e)
  obtain err c2 buf where
    one: \<open>resolveItem (addIntegerPathElement (int i) (al_ctx st)) item NewBufPair = (err, c2, buf)\<close>
    by (cases \<open>resolveItem (addIntegerPathElement (int i) (al_ctx st)) item NewBufPair\<close>)
  obtain rs1 where
    rest: \<open>spec_resolveEach resolveItem pre (removeLastPathElement c2) = (rs1, c3)\<close>
    and rs: \<open>rs = (err, buf) # rs1\<close>
    using Cons.prems(3) by (auto simp: e one split: prod.splits)
  have err: \<open>err = None\<close> and all: \<open>\<forall>res \<in> set rs1. fst res = None\<close>
    using Cons.prems(4) rs by simp_all
  let ?st1 = \<open>st\<lparr>al_ctx := removeLastPathElement c2,
                  al_arrayBuf := snd (MergeBufPairs buf (al_arrayBuf st) (al_hasPreviousItem st)),
                  al_itemBuf := fst (MergeBufPairs buf (al_arrayBuf st) (al_hasPreviousItem st)),
                  al_hasPreviousItem :=
                    (if \<not> al_hasPreviousItem st \<and> al_dataWritten st + length (Data buf) \<noteq> 0
                     then True else al_hasPreviousItem st),
                  al_dataWritten := al_dataWritten st + length (Data buf)\<rparr>\<close>
  have step: \<open>arrayItemStep resolveItem nullable (stream\<lparr>Enabled := False\<rparr>) (i, item) st
      = Next ?st1\<close>
    unfolding arrayItemStep_unfold itemOutcome_def
    using one err Cons.prems(1) by (simp add: Let_def split: prod.splits)
  have a1: \<open>al_itemBuf ?st1 = NewBufPair\<close>
    by (simp add: MergeBufPairs_fst)
  have a2: \<open>al_hasPreviousItem ?st1 \<longleftrightarrow> al_dataWritten ?st1 \<noteq> 0\<close>
    using Cons.prems(2) by auto
  have a3: \<open>spec_resolveEach resolveItem pre (al_ctx ?st1) = (rs1, c3)\<close>
    using rest by simp
  obtain st' where
    it: \<open>iterate (arrayItemStep resolveItem nullable (stream\<lparr>Enabled := False\<rparr>)) pre ?st1
         = Next st'\<close>
    and c: \<open>al_ctx st' = c3\<close>
    and b: \<open>al_arrayBuf st' =
                \<lparr>Data = Data (al_arrayBuf ?st1)
                         @ joinedFrom (al_hasPreviousItem ?st1) (map (\<lambda>res. Data (snd res)) rs1),
                 Errors = foldl spec_join_errors (Errors (al_arrayBuf ?st1))
                            (map (\<lambda>res. Errors (snd res)) rs1)\<rparr>\<close>
    using Cons.IH[OF a1 a2 a3 all] by blast
  have flag: \<open>al_hasPreviousItem ?st1 \<longleftrightarrow> al_hasPreviousItem st \<or> Data buf \<noteq> []\<close>
    using Cons.prems(2) by auto
  have \<open>iterate (arrayItemStep resolveItem nullable (stream\<lparr>Enabled := False\<rparr>)) (e # pre) st
      = Next st'\<close>
    unfolding e iterate.simps step step.case it by (rule refl)
  moreover have \<open>al_arrayBuf st' =
                \<lparr>Data = Data (al_arrayBuf st)
                         @ joinedFrom (al_hasPreviousItem st) (map (\<lambda>res. Data (snd res)) rs),
                 Errors = foldl spec_join_errors (Errors (al_arrayBuf st))
                            (map (\<lambda>res. Errors (snd res)) rs)\<rparr>\<close>
    unfolding b rs using flag
    by (cases \<open>Data buf = []\<close>) (simp_all add: MergeBufPairs_snd)
  ultimately show ?case using c by blast
qed


lemma sint_pred:
  fixes n :: \<open>64 word\<close>
  assumes \<open>sint n \<noteq> - (2 ^ 63)\<close>
  shows \<open>sint (n - 1) = sint n - 1\<close>
proof -
  have \<open>- (2 ^ 63) \<le> sint n\<close> \<open>sint n < 2 ^ 63\<close>
    using sint_ge[of n] sint_lt[of n] by simp_all
  then have \<open>- (2 ^ 63) \<le> sint n - 1\<close> \<open>sint n - 1 < 2 ^ 63\<close>
    using assms by simp_all
  then have \<open>signed_take_bit 63 (sint n - 1) = sint n - 1\<close>
    by (simp add: signed_take_bit_int_eq_self)
  then show ?thesis
    by (simp add: sint_word_ariths)
qed

text \<open>
  C8, as the code has it. For a streaming array whose initial batch size \<open>N\<close> is not the least
  integer, and whose elements at the indices below \<open>N\<close> resolve without an error,
  \<open>resolveArraySynchronous\<close> succeeds; the elements below \<open>N\<close> are resolved, in order, and the
  array's output is \<^verbatim>\<open>[\<close>, their outputs with commas between them, and \<^verbatim>\<open>]\<close>; the elements from
  the index \<open>N\<close> on are not resolved: each is put on the queue of patches, in order, as the
  patch that the spec gives for it.
\<close>

theorem streaming_array_batches:
  assumes \<open>Enabled stream\<close>
    and \<open>sint (InitialBatchSize stream) \<noteq> - (2 ^ 63)\<close>
    and \<open>spec_resolveEach resolveItem
           (take (nat (sint (InitialBatchSize stream))) (indexed arrayItems)) ctx = (rs, c3)\<close>
    and \<open>\<forall>res \<in> set rs. fst res = None\<close>
  shows \<open>resolveArraySynchronous resolveItem nullable stream ctx arrayItems arrayBuf =
     (None,
      spec_enqueue stream (drop (nat (sint (InitialBatchSize stream))) (indexed arrayItems)) c3,
      \<lparr>Data = Data arrayBuf @ ''['' @ spec_inlineData rs @ '']'',
       Errors = spec_inlineErrors (Errors arrayBuf) rs\<rparr>)\<close>
proof -
  let ?n = \<open>nat (sint (InitialBatchSize stream))\<close>
  let ?st = \<open>\<lparr>al_ctx = ctx, al_arrayBuf = writeData lBrack arrayBuf, al_itemBuf = NewBufPair,
              al_hasPreviousItem = False, al_dataWritten = 0\<rparr>\<close>
  note p = sint_pred[OF assms(2)]
  have split: \<open>indexed arrayItems = take ?n (indexed arrayItems) @ drop ?n (indexed arrayItems)\<close>
    by simp
  have pre: \<open>\<forall>z \<in> set (take ?n (indexed arrayItems)).
               \<not> int (fst z) > sint (InitialBatchSize stream - 1)\<close>
    using indexed_take_less[of _ ?n arrayItems] unfolding p by fastforce
  have post: \<open>\<forall>z \<in> set (drop ?n (indexed arrayItems)).
                int (fst z) > sint (InitialBatchSize stream - 1)\<close>
    using indexed_drop_ge[of _ ?n arrayItems] unfolding p by fastforce
  obtain st' where
    it: \<open>iterate (arrayItemStep resolveItem nullable (stream\<lparr>Enabled := False\<rparr>))
           (take ?n (indexed arrayItems)) ?st = Next st'\<close>
    and c: \<open>al_ctx st' = c3\<close>
    and b: \<open>al_arrayBuf st' =
                \<lparr>Data = Data (al_arrayBuf ?st)
                         @ joinedFrom (al_hasPreviousItem ?st) (map (\<lambda>res. Data (snd res)) rs),
                 Errors = foldl spec_join_errors (Errors (al_arrayBuf ?st))
                            (map (\<lambda>res. Errors (snd res)) rs)\<rparr>\<close>
    using inline_loop[where st = ?st and resolveItem = resolveItem
        and pre = \<open>take ?n (indexed arrayItems)\<close> and rs = rs and ?c3.0 = c3
        and nullable = nullable and stream = stream] assms(3,4)
    by auto
  show ?thesis
    unfolding resolveArraySynchronous_def
    by (subst split, unfold iterate_append inline_prefix[OF pre] it step.case
          stream_tail[OF assms(1) post])
       (simp add: c b writeData_def lBrack_def rBrack_def joinedFrom_False spec_inlineData_def
          spec_inlineErrors_def)
qed

text \<open>
  C8 as the spec states it fails when an element of the initial batch fails: the loop ends
  there. A nullable streaming array with the initial batch size 1 and the elements \<^verbatim>\<open>null\<close>,
  \<^verbatim>\<open>2\<close>, \<^verbatim>\<open>3\<close>, whose item is a non-nullable integer, becomes \<^verbatim>\<open>null\<close>, and the elements at the
  indices 1 and 2 are not put on the queue.
\<close>

theorem streaming_array_counterexample:
  \<open>Enabled streamOne \<and> InitialBatchSize streamOne = 1
   \<and> resolveArraySynchronous (resolveNode numbersResolver (Integer [] False)) True streamOne
        NewContext [''null'', ''2'', ''3''] NewBufPair
      = (None, NewContext, \<lparr>Data = ''null'', Errors = []\<rparr>)
   \<and> patches (fst (snd (resolveArraySynchronous (resolveNode numbersResolver (Integer [] False))
        True streamOne NewContext [''null'', ''2'', ''3''] NewBufPair))) = []\<close>
  by (simp add: streamOne_def resolveArraySynchronous_def indexed_def arrayItemStep_def
      resolveInteger_def numbersResolver_def numbersParser_def upt_rec
      addIntegerPathElement_def removeLastPathElement_def NewContext_def resolveNull_def
      writeData_def NewBufPair_def lBrack_def null_def)

theorem streaming_array_batches_witness:
  \<open>Enabled streamTwo
   \<and> sint (InitialBatchSize streamTwo) = 2
   \<and> map fst (fst (spec_resolveEach (resolveNode numbersResolver (Integer [] False))
                  (take 2 (indexed [''1'', ''2'', ''3''])) NewContext)) = [None, None]
   \<and> fst (resolveArraySynchronous (resolveNode numbersResolver (Integer [] False)) False streamTwo
            NewContext [''1'', ''2'', ''3''] NewBufPair) = None
   \<and> patches (fst (snd (resolveArraySynchronous (resolveNode numbersResolver (Integer [] False))
            False streamTwo NewContext [''1'', ''2'', ''3''] NewBufPair)))
      = [\<lparr>patch_path = ''/data/2'', patch_extraPath = None, patch_data = ''3'', patch_index = 7\<rparr>]
   \<and> snd (snd (resolveArraySynchronous (resolveNode numbersResolver (Integer [] False)) False
            streamTwo NewContext [''1'', ''2'', ''3''] NewBufPair))
      = \<lparr>Data = ''[1,2]'', Errors = []\<rparr>\<close>
proof -
  let ?item = \<open>resolveNode numbersResolver (Integer [] False)\<close>
  let ?each = \<open>spec_resolveEach ?item (take 2 (indexed [''1'', ''2'', ''3''])) NewContext\<close>
  have e: \<open>Enabled streamTwo\<close> by (simp add: streamTwo_def)
  have n: \<open>sint (InitialBatchSize streamTwo) = 2\<close> by (simp add: streamTwo_def)
  then have m: \<open>sint (InitialBatchSize streamTwo) \<noteq> - (2 ^ 63)\<close> by simp
  have ix: \<open>indexed [''1'', ''2'', ''3''] = [(0, ''1''), (1, ''2''), (2, ''3'')]\<close>
    by (simp add: indexed_def upt_rec)
  have ea: \<open>?each = ([(None, \<lparr>Data = ''1'', Errors = []\<rparr>), (None, \<lparr>Data = ''2'', Errors = []\<rparr>)],
                     NewContext)\<close>
    by (simp add: ix resolveInteger_def numbersResolver_def numbersParser_def
        addIntegerPathElement_def removeLastPathElement_def NewContext_def writeData_def
        NewBufPair_def bytes_of_def)
  have r: \<open>spec_resolveEach ?item
             (take (nat (sint (InitialBatchSize streamTwo))) (indexed [''1'', ''2'', ''3'']))
             NewContext = (fst ?each, snd ?each)\<close>
    by (simp add: n)
  have a: \<open>\<forall>res \<in> set (fst ?each). fst res = None\<close>
    by (simp add: ea)
  have res: \<open>resolveArraySynchronous ?item False streamTwo NewContext [''1'', ''2'', ''3''] NewBufPair
      = (None,
         spec_enqueue streamTwo [(2, ''3'')] NewContext,
         \<lparr>Data = ''[1,2]'', Errors = []\<rparr>)\<close>
    unfolding streaming_array_batches [OF e m r a] ea fst_conv snd_conv
    by (simp add: n ix spec_inlineData_def spec_inlineErrors_def spec_join_errors_def
        NewBufPair_def)
  have p: \<open>patches (spec_enqueue streamTwo [(2, ''3'')] NewContext)
      = [\<lparr>patch_path = ''/data/2'', patch_extraPath = None, patch_data = ''3'', patch_index = 7\<rparr>]\<close>
    by code_simp
  show ?thesis
    using e n ea p by (simp add: res)
qed

subsection \<open>The walk keeps the view of the context\<close>

lemma sameView_refl [simp]: \<open>sameView c c\<close>
  by (simp add: sameView_def)

lemma sameView_trans: \<open>sameView a b \<Longrightarrow> sameView b c \<Longrightarrow> sameView a c\<close>
  by (simp add: sameView_def)

lemma sameView_sym: \<open>sameView a b \<Longrightarrow> sameView b a\<close>
  by (simp add: sameView_def)

lemma iterate_invariant:
  assumes \<open>I s\<close>
    and \<open>\<And>x u. x \<in> set xs \<Longrightarrow> I u \<Longrightarrow> (case body x u of Next u' \<Rightarrow> I u' | Return res \<Rightarrow> J res)\<close>
  shows \<open>case iterate body xs s of Next u' \<Rightarrow> I u' | Return res \<Rightarrow> J res\<close>
  using assms
proof (induction xs arbitrary: s)
  case Nil
  then show ?case by simp
next
  case (Cons x xs)
  show ?case
  proof (cases \<open>body x s\<close>)
    case (Next u)
    then have \<open>I u\<close> using Cons.prems(2)[of x s] Cons.prems(1) by simp
    then show ?thesis using Cons.IH[of u] Cons.prems(2) Next by simp
  next
    case (Return res)
    then show ?thesis using Cons.prems(2)[of x s] Cons.prems(1) by simp
  qed
qed

lemma preparePatch_view: \<open>sameView c (preparePatch i ep d c)\<close>
  by (simp add: sameView_def preparePatch_def path_ctx_def addPatch_def Let_def)

lemma removeLast_add_view:
  \<open>sameView (setPosition p (addPathElement e c)) c2 \<Longrightarrow> sameView c (removeLastPathElement c2)\<close>
  by (auto simp: sameView_def setPosition_def addPathElement_def removeLastPathElement_def
      dest: arg_cong[where f = butlast])

lemma removeLast_addInt_view:
  \<open>sameView (addIntegerPathElement i c) c2 \<Longrightarrow> sameView c (removeLastPathElement c2)\<close>
  by (auto simp: sameView_def addIntegerPathElement_def removeLastPathElement_def
      dest: arg_cong[where f = butlast])

lemma fieldOutcome_ctx:
  \<open>case fieldOutcome nullable f st (err, c2, fb) of
     Next st' \<Rightarrow> fl_ctx st' = removeLastPathElement c2
   | Return res \<Rightarrow> fst (snd res) = removeLastPathElement c2\<close>
  unfolding fieldOutcome_def Let_def
  by (simp split: option.splits prod.splits)

lemma fieldStep_view:
  assumes \<open>keepsView resolveValue\<close> and \<open>sameView c (fl_ctx st)\<close>
  shows \<open>case fieldStep r resolveValue nullable s d f st of
           Next st' \<Rightarrow> sameView c (fl_ctx st')
         | Return res \<Rightarrow> sameView c (fst (snd res))\<close>
proof (cases \<open>typeNameDiffers r (fieldDataOf s d f) f\<close>)
  case True
  then show ?thesis using assms(2) by (simp add: fieldStep_unfold)
next
  case False
  obtain err c2 fb where rv:
    \<open>resolveValue (fieldCtx f st) (fieldDataOf s d f) (fl_fieldBuf st) = (err, c2, fb)\<close>
    by (cases \<open>resolveValue (fieldCtx f st) (fieldDataOf s d f) (fl_fieldBuf st)\<close>)
  have \<open>sameView (fieldCtx f st) c2\<close>
    using assms(1) rv unfolding keepsView_def by (metis fst_conv snd_conv)
  then have \<open>sameView (fl_ctx st) (removeLastPathElement c2)\<close>
    unfolding fieldCtx_def by (rule removeLast_add_view)
  then have v: \<open>sameView c (removeLastPathElement c2)\<close>
    using assms(2) sameView_trans by blast
  show ?thesis
    using fieldOutcome_ctx[where nullable = nullable and f = f and st = st and err = err
        and ?c2.0 = c2 and fb = fb] v False
    by (auto simp add: fieldStep_unfold rv split: step.splits)
qed

lemma itemOutcome_ctx:
  \<open>case itemOutcome nullable st (err, c2, ib) of
     Next st' \<Rightarrow> al_ctx st' = removeLastPathElement c2
   | Return res \<Rightarrow> fst (snd res) = removeLastPathElement c2\<close>
  unfolding itemOutcome_def Let_def
  by (simp split: option.splits prod.splits)

lemma arrayItemStep_view:
  assumes \<open>keepsView resolveItem\<close> and \<open>sameView c (al_ctx st)\<close>
  shows \<open>case arrayItemStep resolveItem nullable stream z st of
           Next st' \<Rightarrow> sameView c (al_ctx st')
         | Return res \<Rightarrow> sameView c (fst (snd res))\<close>
proof -
  obtain i item where z: \<open>z = (i, item)\<close> by (cases z)
  show ?thesis
  proof (cases \<open>Enabled stream \<and> int i > sint (InitialBatchSize stream - 1)\<close>)
    case True
    have \<open>sameView (addIntegerPathElement (int i) (al_ctx st))
            (preparePatch (PatchIndex stream) None item (addIntegerPathElement (int i) (al_ctx st)))\<close>
      by (rule preparePatch_view)
    then have \<open>sameView (al_ctx st) (removeLastPathElement
            (preparePatch (PatchIndex stream) None item (addIntegerPathElement (int i) (al_ctx st))))\<close>
      by (rule removeLast_addInt_view)
    then show ?thesis
      using True assms(2) sameView_trans by (auto simp: z arrayItemStep_unfold)
  next
    case False
    obtain err c2 ib where rv:
      \<open>resolveItem (addIntegerPathElement (int i) (al_ctx st)) item (al_itemBuf st) = (err, c2, ib)\<close>
      by (cases \<open>resolveItem (addIntegerPathElement (int i) (al_ctx st)) item (al_itemBuf st)\<close>)
    have \<open>sameView (addIntegerPathElement (int i) (al_ctx st)) c2\<close>
      using assms(1) rv unfolding keepsView_def by (metis fst_conv snd_conv)
    then have \<open>sameView (al_ctx st) (removeLastPathElement c2)\<close>
      by (rule removeLast_addInt_view)
    then have v: \<open>sameView c (removeLastPathElement c2)\<close>
      using assms(2) sameView_trans by blast
    show ?thesis
      using itemOutcome_ctx[where nullable = nullable and st = st and err = err
          and ?c2.0 = c2 and ib = ib] v False
      by (auto simp add: z arrayItemStep_unfold rv split: step.splits)
  qed
qed

lemma resolveArraySynchronous_view:
  assumes \<open>keepsView resolveItem\<close>
  shows \<open>sameView ctx (fst (snd (resolveArraySynchronous resolveItem nullable stream ctx arrayItems arrayBuf)))\<close>
proof -
  let ?st0 = \<open>\<lparr>al_ctx = ctx, al_arrayBuf = writeData lBrack arrayBuf, al_itemBuf = NewBufPair,
              al_hasPreviousItem = False, al_dataWritten = 0\<rparr>\<close>
  have \<open>case iterate (arrayItemStep resolveItem nullable stream) (indexed arrayItems) ?st0 of
           Next st' \<Rightarrow> sameView ctx (al_ctx st')
         | Return res \<Rightarrow> sameView ctx (fst (snd res))\<close>
    by (rule iterate_invariant) (simp_all add: arrayItemStep_view[OF assms])
  then show ?thesis
    unfolding resolveArraySynchronous_def by (auto split: step.splits)
qed

lemma resolveArrayAsynchronous_ctx:
  \<open>fst (snd (resolveArrayAsynchronous r resolveItem nullable ctx arrayItems arrayBuf)) = ctx\<close>
  unfolding resolveArrayAsynchronous_def Let_def
  by (simp split: option.splits prod.splits)

lemma resolveArray_view:
  assumes \<open>keepsView resolveItem\<close>
  shows \<open>sameView ctx (fst (snd (resolveArray r resolveItem p nullable resolveAsynchronous stream
                                   ctx d arrayBuf)))\<close>
  unfolding resolveArray_def Let_def
  by (simp add: resolveArraySynchronous_view[OF assms] resolveArrayAsynchronous_ctx)

lemma objectEnd_ctx: \<open>fst (snd (objectEnd nullable st)) = fl_ctx st\<close>
  by (simp add: objectEnd_def)

lemma resolveObject_view:
  assumes \<open>\<And>f. f \<in> set flds \<Longrightarrow> keepsView (rn (Value f))\<close>
  shows \<open>sameView ctx (fst (snd (resolveObject r rn nullable p flds fetch ctx d0 objectBuf)))\<close>
proof (cases \<open>length p \<noteq> 0 \<and> length (objectData r p d0) = 0\<close>)
  case True
  then show ?thesis by (simp add: resolveObject_unfold)
next
  case False
  obtain fe s ob where fetched:
    \<open>objectFetch r fetch ctx (objectData r p d0) objectBuf = (fe, s, ob)\<close>
    by (cases \<open>objectFetch r fetch ctx (objectData r p d0) objectBuf\<close>)
  show ?thesis
  proof (cases fe)
    case (Some e)
    then show ?thesis using False fetched by (simp add: resolveObject_unfold)
  next
    case None
    have loop: \<open>case iterate (\<lambda>f. fieldStep r (rn (Value f)) nullable s (objectData r p d0) f) flds
                  (fieldLoopStart ctx ob) of
           Next st' \<Rightarrow> sameView ctx (fl_ctx st')
         | Return res \<Rightarrow> sameView ctx (fst (snd res))\<close>
      by (rule iterate_invariant) (simp_all add: fieldStep_view assms fieldLoopStart_def)
    show ?thesis
    proof (cases \<open>iterate (\<lambda>f. fieldStep r (rn (Value f)) nullable s (objectData r p d0) f) flds
                  (fieldLoopStart ctx ob)\<close>)
      case (Next st)
      then show ?thesis
        using loop False fetched None by (simp add: resolveObject_unfold objectEnd_ctx)
    next
      case (Return res)
      then show ?thesis
        using loop False fetched None by (simp add: resolveObject_unfold)
    qed
  qed
qed

lemma resolveNode_view: \<open>sameView ctx (fst (snd (resolveNode r n ctx d bufPair)))\<close>
proof (induction r n ctx d bufPair rule: resolveNode.induct)
  case (1 r nullable p flds fetch ctx d bufPair)
  then have \<open>\<And>f. f \<in> set flds \<Longrightarrow> keepsView (resolveNode r (Value f))\<close>
    unfolding keepsView_def by blast
  then show ?case
    by (simp add: resolveObject_view)
next
  case (2 r p nullable resolveAsynchronous item stream ctx d bufPair)
  then have \<open>keepsView (resolveNode r item)\<close>
    unfolding keepsView_def by blast
  then show ?case
    by (simp add: resolveArray_view)
next
  case (3 r dfr ctx d bufPair)
  then show ?case by (simp add: preparePatch_view)
qed (simp_all split: prod.splits)

lemma addResolveError_eq:
  \<open>addResolveError c b =
     b\<lparr>Errors := spec_join_errors (Errors b) (spec_unableToResolve (position c) (pathElements c))\<rparr>\<close>
  by (simp add: addResolveError_def WriteErr_eq spec_unableToResolve_def literal_defs Let_def)

lemma MergeBufPairErrors_snd:
  \<open>snd (MergeBufPairErrors from to) = to\<lparr>Errors := spec_join_errors (Errors to) (Errors from)\<rparr>\<close>
  by (rule MergeBufPairErrors_to)

lemma fieldHead_Errors: \<open>Errors (fieldHead f st) = Errors (fl_objectBuf st)\<close>
  by (simp add: fieldHead_def writeData_def)

lemma fieldStep_nonNull:
  assumes \<open>\<not> typeNameDiffers r (fieldDataOf s d f) f\<close>
    and \<open>resolveNode r (Value f) (fieldCtx f st) (fieldDataOf s d f) (fl_fieldBuf st)
         = (Some errNonNullableFieldValueIsNull, c2, fb)\<close>
  shows \<open>fieldStep r (resolveNode r (Value f)) nullable s d f st =
     Return (if nullable then None else Some errNonNullableFieldValueIsNull,
             removeLastPathElement c2,
             \<lparr>Data = (if nullable then ''null'' else []),
              Errors = spec_join_errors
                         (spec_join_errors (Errors (fl_objectBuf st)) (Errors fb))
                         (if nullable \<or> isObject (Value f) then []
                          else spec_unableToResolve (position c2) (pathElements (fl_ctx st)))\<rparr>)\<close>
proof -
  have \<open>sameView (fieldCtx f st) c2\<close>
    using resolveNode_view[of \<open>fieldCtx f st\<close> r \<open>Value f\<close> \<open>fieldDataOf s d f\<close> \<open>fl_fieldBuf st\<close>]
      assms(2) by simp
  then have \<open>sameView (fl_ctx st) (removeLastPathElement c2)\<close>
    unfolding fieldCtx_def by (rule removeLast_add_view)
  then have pe: \<open>pathElements (removeLastPathElement c2) = pathElements (fl_ctx st)\<close>
    by (simp add: sameView_def)
  have pos: \<open>position (removeLastPathElement c2) = position c2\<close>
    by (simp add: removeLastPathElement_def)
  obtain fb1 ob3 where m: \<open>MergeBufPairErrors fb ((fieldHead f st)\<lparr>Data := []\<rparr>) = (fb1, ob3)\<close>
    by (cases \<open>MergeBufPairErrors fb ((fieldHead f st)\<lparr>Data := []\<rparr>)\<close>)
  have ob3: \<open>ob3 = \<lparr>Data = [], Errors = spec_join_errors (Errors (fl_objectBuf st)) (Errors fb)\<rparr>\<close>
    using MergeBufPairErrors_snd[of fb \<open>(fieldHead f st)\<lparr>Data := []\<rparr>\<close>] m
    by (simp add: fieldHead_Errors)
  show ?thesis
    unfolding fieldStep_unfold fieldOutcome_def Let_def
    using assms m
    by (simp add: ob3 addResolveError_eq pe pos resolveNull_def writeData_def null_def
        spec_join_errors_def)
qed

lemma arrayItemStep_nonNull:
  assumes \<open>\<not> (Enabled stream \<and> int i > sint (InitialBatchSize stream - 1))\<close>
    and \<open>resolveItem (addIntegerPathElement (int i) (al_ctx st)) item (al_itemBuf st)
         = (Some errNonNullableFieldValueIsNull, c2, ib)\<close>
  shows \<open>arrayItemStep resolveItem nullable stream (i, item) st =
     Return (if nullable then None else Some errNonNullableFieldValueIsNull,
             removeLastPathElement c2,
             if nullable then \<lparr>Data = ''null'', Errors = Errors (al_arrayBuf st)\<rparr>
             else al_arrayBuf st)\<close>
  unfolding arrayItemStep_unfold itemOutcome_def Let_def
  using assms by (simp add: resolveNull_def writeData_def null_def)

lemma resolveArrayAsynchronous_nonNull:
  assumes \<open>firstError (schedule r (length arrayItems)) (asyncTasks resolveItem ctx arrayItems)
           = Some errNonNullableFieldValueIsNull\<close>
  shows \<open>resolveArrayAsynchronous r resolveItem nullable ctx arrayItems arrayBuf =
     (if nullable then None else Some errNonNullableFieldValueIsNull, ctx,
      if nullable then \<lparr>Data = ''null'', Errors = Errors arrayBuf\<rparr>
      else arrayBuf\<lparr>Data := Data arrayBuf @ ''[''\<rparr>)\<close>
  unfolding resolveArrayAsynchronous_def Let_def
  using assms by (simp add: resolveNull_def writeData_def null_def lBrack_def)

lemma ResolveGraphQLResponse_buffer:
  \<open>ResolveGraphQLResponse r bufferWrite ctx response d w =
     (case resolveNode r (ResponseData response) ctx (spec_envelope_data (parser r) d) NewBufPair of
        (err, ctx1, buf) \<Rightarrow>
          if err \<noteq> None \<and> err \<noteq> Some errNonNullableFieldValueIsNull then (err, ctx1, w)
          else (None, ctx1,
                w @ ''{''
                @ (if spec_join_errors (Errors buf) (spec_envelope_errors (parser r) d) \<noteq> []
                   then ''"errors":[''
                        @ spec_join_errors (Errors buf) (spec_envelope_errors (parser r) d)
                        @ ''],''
                   else [])
                @ ''"data":''
                @ (if err = None \<and> Data buf \<noteq> [] then Data buf else ''null'')
                @ ''}''))\<close>
proof -
  obtain err ctx1 buf where
    walk: \<open>resolveNode r (ResponseData response) ctx (spec_envelope_data (parser r) d) NewBufPair
           = (err, ctx1, buf)\<close>
    by (cases \<open>resolveNode r (ResponseData response) ctx (spec_envelope_data (parser r) d) NewBufPair\<close>)
  show ?thesis
    unfolding ResolveGraphQLResponse_def extractResponse_envelope Let_def
    by (simp add: walk writeGraphqlResponse_buffer MergeBufPairErrors_to spec_join_errors_def)
qed

lemma Itoa_0: \<open>Itoa 0 = ''0''\<close>
  by (simp add: Itoa_def natDigits.simps digit_def)

text \<open>
  C1 as the spec states it fails at its own scenario S2, with the data as the spec gives it
  and with the data wrapped in an envelope (so that the field \<^verbatim>\<open>hello\<close> resolves and \<^verbatim>\<open>n\<close> is the
  field that fails): the response has the errors before the data, the error has locations
  and no path.
\<close>

theorem S2_counterexample:
  \<open>snd (snd (ResolveGraphQLResponse helloResolver bufferWrite NewContext planS2 helloEnvelope []))
     = ''{"errors":[{"message":"unable to resolve","locations":[{"line":0,"column":0}]}],"data":null}''
   \<and> snd (snd (ResolveGraphQLResponse helloResolver bufferWrite NewContext planS2 helloEnvelope []))
     \<noteq> ''{"data":null,"errors":[{"message":"unable to resolve","path":["n"]}]}''
   \<and> snd (snd (ResolveGraphQLResponse helloResolver bufferWrite NewContext planS2 helloJson []))
     \<noteq> ''{"data":null,"errors":[{"message":"unable to resolve","path":["n"]}]}''\<close>
  by code_simp

subsection \<open>Asynchronous and synchronous arrays\<close>

lemma agree_weaken: \<open>agree True c c' \<Longrightarrow> agree strong c c'\<close>
  by (simp add: agree_def)

lemma related_weaken: \<open>related True res res' \<Longrightarrow> related strong res res'\<close>
  by (simp add: related_def agree_def)

lemma iterate_rel:
  assumes \<open>R s s'\<close>
    and \<open>\<And>x u u'. x \<in> set xs \<Longrightarrow> R u u' \<Longrightarrow> rel_step R T (body x u) (body' x u')\<close>
  shows \<open>rel_step R T (iterate body xs s) (iterate body' xs s')\<close>
  using assms
proof (induction xs arbitrary: s s')
  case Nil
  then show ?case by simp
next
  case (Cons x xs)
  have st: \<open>rel_step R T (body x s) (body' x s')\<close>
    using Cons.prems by simp
  show ?case
  proof (cases \<open>body x s\<close>)
    case (Next u)
    then obtain u' where u': \<open>body' x s' = Next u'\<close> \<open>R u u'\<close>
      using st by (cases \<open>body' x s'\<close>) simp_all
    have \<open>rel_step R T (iterate body xs u) (iterate body' xs u')\<close>
      using Cons.IH[OF u'(2)] Cons.prems(2) by simp
    then show ?thesis using Next u' by simp
  next
    case (Return res)
    then obtain res' where \<open>body' x s' = Return res'\<close> \<open>T res res'\<close>
      using st by (cases \<open>body' x s'\<close>) simp_all
    then show ?thesis using Return by simp
  qed
qed

lemma renderContextVariable_view:
  \<open>sameView c c' \<Longrightarrow> renderContextVariable jp c = renderContextVariable jp c'\<close>
  by (intro ext) (simp add: renderContextVariable_def sameView_def)

lemma Render_view:
  assumes \<open>sameView c c'\<close>
  shows \<open>Render jp canon segments c d out = Render jp canon segments c' d out\<close>
proof -
  have h: \<open>Header c = Header c'\<close> using assms by (simp add: sameView_def)
  show ?thesis
    unfolding Render_def renderContextVariable_view[OF assms] h by (rule refl)
qed

lemma resolveFetch_view:
  assumes \<open>sameView c c'\<close>
  shows \<open>resolveFetch r c fetch d s = resolveFetch r c' fetch d s\<close>
proof -
  have \<open>prepareSingleFetch r c = prepareSingleFetch r c'\<close>
    by (intro ext) (simp add: prepareSingleFetch_def Render_view[OF assms])
  then have h: \<open>prepareSingleFetch r c = prepareSingleFetch r c'\<close> .
  show ?thesis
    unfolding resolveFetch_def h by (rule refl)
qed

lemma objectFetch_view:
  assumes \<open>sameView c c'\<close>
  shows \<open>objectFetch r fetch c d ob = objectFetch r fetch c' d ob\<close>
proof -
  have h: \<open>resolveFetch r c = resolveFetch r c'\<close>
    by (intro ext) (rule resolveFetch_view[OF assms])
  show ?thesis
    unfolding objectFetch_def h by (rule refl)
qed

lemma addResolveError_agree:
  \<open>agree True c c' \<Longrightarrow> addResolveError c b = addResolveError c' b\<close>
  by (simp add: addResolveError_def agree_def sameView_def)

lemma removeLast_agree:
  \<open>agree strong c c' \<Longrightarrow> agree strong (removeLastPathElement c) (removeLastPathElement c')\<close>
  by (simp add: agree_def sameView_def removeLastPathElement_def)

lemma fieldCtx_agree:
  \<open>sameView (fl_ctx st) (fl_ctx st') \<Longrightarrow> agree True (fieldCtx f st) (fieldCtx f st')\<close>
  by (simp add: agree_def sameView_def fieldCtx_def setPosition_def addPathElement_def)

lemma addInt_agree:
  \<open>agree strong c c' \<Longrightarrow> agree strong (addIntegerPathElement i c) (addIntegerPathElement i c')\<close>
  by (simp add: agree_def sameView_def addIntegerPathElement_def)

lemma preparePatch_agree:
  \<open>agree strong c c' \<Longrightarrow> agree strong (preparePatch i ep d c) (preparePatch i ep d c')\<close>
  by (simp add: agree_def sameView_def preparePatch_def path_ctx_def addPatch_def Let_def)

lemma fieldHead_rel: \<open>fieldRel strong st st' \<Longrightarrow> fieldHead f st = fieldHead f st'\<close>
  by (simp add: fieldRel_def fieldHead_def)

lemma fieldOutcome_rel:
  assumes \<open>fieldRel strong st st'\<close> and \<open>related True res res'\<close>
  shows \<open>rel_step (fieldRel strong) (related True)
           (fieldOutcome nullable f st res) (fieldOutcome nullable f st' res')\<close>
proof -
  obtain e c2 fb where res: \<open>res = (e, c2, fb)\<close> by (cases res)
  obtain e' c2' fb' where res': \<open>res' = (e', c2', fb')\<close> by (cases res')
  from assms(2) have e: \<open>e' = e\<close> and fb: \<open>fb' = fb\<close> and a: \<open>agree True c2 c2'\<close>
    by (simp_all add: related_def res res')
  have a3: \<open>agree True (removeLastPathElement c2) (removeLastPathElement c2')\<close>
    using a by (rule removeLast_agree)
  have err: \<open>addResolveError (removeLastPathElement c2) b = addResolveError (removeLastPathElement c2') b\<close>
    for b using a3 by (rule addResolveError_agree)
  have h: \<open>fieldHead f st' = fieldHead f st\<close>
    using assms(1) fieldHead_rel by simp
  have flags: \<open>fl_typeNameSkip st' = fl_typeNameSkip st\<close>
    using assms(1) by (simp add: fieldRel_def)
  show ?thesis
  proof (cases e)
    case None
    then show ?thesis
      unfolding res res' e fb fieldOutcome_def Let_def h
      using a3 flags
      by (simp add: fieldRel_def split: prod.splits)
  next
    case (Some x)
    then show ?thesis
      unfolding res res' e fb fieldOutcome_def Let_def h
      using a3 err
      by (simp add: related_def split: prod.splits)
  qed
qed

lemma fieldStep_rel:
  assumes \<open>insensitive resolveValue\<close> and \<open>fieldRel strong st st'\<close>
  shows \<open>rel_step (fieldRel strong) (related True)
           (fieldStep r resolveValue nullable s d f st)
           (fieldStep r resolveValue nullable s d f st')\<close>
proof (cases \<open>typeNameDiffers r (fieldDataOf s d f) f\<close>)
  case True
  then show ?thesis
    using assms(2) by (auto simp add: fieldStep_unfold fieldRel_def)
next
  case False
  have \<open>sameView (fl_ctx st) (fl_ctx st')\<close>
    using assms(2) by (simp add: fieldRel_def agree_def)
  then have \<open>agree True (fieldCtx f st) (fieldCtx f st')\<close>
    by (rule fieldCtx_agree)
  then have \<open>related True (resolveValue (fieldCtx f st) (fieldDataOf s d f) (fl_fieldBuf st))
                            (resolveValue (fieldCtx f st') (fieldDataOf s d f) (fl_fieldBuf st))\<close>
    using assms(1) unfolding insensitive_def by blast
  moreover have \<open>fl_fieldBuf st' = fl_fieldBuf st\<close>
    using assms(2) by (simp add: fieldRel_def)
  ultimately show ?thesis
    using False fieldOutcome_rel[OF assms(2)] by (simp add: fieldStep_unfold)
qed

lemma objectEnd_rel:
  assumes \<open>fieldRel strong st st'\<close>
  shows \<open>related strong (objectEnd nullable st) (objectEnd nullable st')\<close>
proof (cases \<open>fl_first st\<close>)
  case True
  then have a: \<open>agree strong (fl_ctx st) (fl_ctx st')\<close>
    using assms by (simp add: fieldRel_def)
  have \<open>strong \<Longrightarrow> addResolveError (fl_ctx st) b = addResolveError (fl_ctx st') b\<close> for b
    using a addResolveError_agree by (simp add: agree_def)
  then show ?thesis
    using assms True a by (auto simp: objectEnd_def related_def fieldRel_def)
next
  case False
  then have \<open>agree True (fl_ctx st) (fl_ctx st')\<close>
    using assms by (simp add: fieldRel_def)
  then show ?thesis
    using assms False by (simp add: objectEnd_def related_def fieldRel_def agree_def)
qed

lemma resolveObject_rel:
  assumes \<open>\<And>f. f \<in> set flds \<Longrightarrow> insensitive (rn (Value f))\<close>
  shows \<open>insensitive (resolveObject r rn nullable p flds fetch)\<close>
  unfolding insensitive_def
proof (intro allI impI)
  fix strong c c' d0 objectBuf
  assume a: \<open>agree strong c c'\<close>
  then have v: \<open>sameView c c'\<close> by (simp add: agree_def)
  show \<open>related strong (resolveObject r rn nullable p flds fetch c d0 objectBuf)
                        (resolveObject r rn nullable p flds fetch c' d0 objectBuf)\<close>
  proof (cases \<open>length p \<noteq> 0 \<and> length (objectData r p d0) = 0\<close>)
    case True
    have \<open>strong \<Longrightarrow> addResolveError c objectBuf = addResolveError c' objectBuf\<close>
      using a addResolveError_agree by (simp add: agree_def)
    then show ?thesis
      using True a by (auto simp: resolveObject_unfold related_def)
  next
    case False
    obtain fe s ob where fetched:
      \<open>objectFetch r fetch c (objectData r p d0) objectBuf = (fe, s, ob)\<close>
      by (cases \<open>objectFetch r fetch c (objectData r p d0) objectBuf\<close>)
    then have fetched': \<open>objectFetch r fetch c' (objectData r p d0) objectBuf = (fe, s, ob)\<close>
      using objectFetch_view[OF v] by simp
    show ?thesis
    proof (cases fe)
      case (Some e)
      then show ?thesis
        using False fetched fetched' a by (auto simp add: resolveObject_unfold related_def)
    next
      case None
      let ?body = \<open>\<lambda>f. fieldStep r (rn (Value f)) nullable s (objectData r p d0) f\<close>
      have start: \<open>fieldRel strong (fieldLoopStart c ob) (fieldLoopStart c' ob)\<close>
        using a by (simp add: fieldRel_def fieldLoopStart_def)
      have loop: \<open>rel_step (fieldRel strong) (related True)
                    (iterate ?body flds (fieldLoopStart c ob))
                    (iterate ?body flds (fieldLoopStart c' ob))\<close>
        using start
      proof (rule iterate_rel)
        fix f u u' assume \<open>f \<in> set flds\<close> \<open>fieldRel strong u u'\<close>
        then show \<open>rel_step (fieldRel strong) (related True) (?body f u) (?body f u')\<close>
          using fieldStep_rel assms by blast
      qed
      show ?thesis
      proof (cases \<open>iterate ?body flds (fieldLoopStart c ob)\<close>)
        case (Next st)
        then obtain st' where n': \<open>iterate ?body flds (fieldLoopStart c' ob) = Next st'\<close>
            and r: \<open>fieldRel strong st st'\<close>
          using loop by (cases \<open>iterate ?body flds (fieldLoopStart c' ob)\<close>) simp_all
        show ?thesis
          using False fetched fetched' None Next n' objectEnd_rel[OF r]
          by (auto simp add: resolveObject_unfold)
      next
        case (Return res)
        then obtain res' where n': \<open>iterate ?body flds (fieldLoopStart c' ob) = Return res'\<close>
            and r: \<open>related True res res'\<close>
          using loop by (cases \<open>iterate ?body flds (fieldLoopStart c' ob)\<close>) simp_all
        show ?thesis
          using False fetched fetched' None Return n' related_weaken[OF r]
          by (auto simp add: resolveObject_unfold)
      qed
    qed
  qed
qed

lemma sameOutcome_related: \<open>sameOutcome strong res res' \<Longrightarrow> related strong res res'\<close>
  by (simp add: sameOutcome_def related_def)

lemma itemOutcome_rel:
  assumes \<open>arrayRel strong st st'\<close> and \<open>related strong res res'\<close>
  shows \<open>rel_step (arrayRel strong) (sameOutcome strong)
           (itemOutcome nullable st res) (itemOutcome nullable st' res')\<close>
proof -
  obtain e c2 ib where res: \<open>res = (e, c2, ib)\<close> by (cases res)
  obtain e' c2' ib' where res': \<open>res' = (e', c2', ib')\<close> by (cases res')
  from assms(2) have e: \<open>e' = e\<close> and a: \<open>agree strong c2 c2'\<close>
    and ib: \<open>e \<noteq> Some errNonNullableFieldValueIsNull \<Longrightarrow> ib' = ib\<close>
    by (simp_all add: related_def res res')
  have a3: \<open>agree strong (removeLastPathElement c2) (removeLastPathElement c2')\<close>
    using a by (rule removeLast_agree)
  have eqs: \<open>al_arrayBuf st' = al_arrayBuf st\<close> \<open>al_itemBuf st' = al_itemBuf st\<close>
    \<open>al_hasPreviousItem st' = al_hasPreviousItem st\<close> \<open>al_dataWritten st' = al_dataWritten st\<close>
    using assms(1) by (simp_all add: arrayRel_def)
  show ?thesis
  proof (cases e)
    case None
    then have \<open>ib' = ib\<close> using ib by simp
    then show ?thesis
      unfolding res res' e itemOutcome_def Let_def
      using None a3 eqs
      by (simp add: arrayRel_def split: prod.splits)
  next
    case (Some x)
    show ?thesis
    proof (cases \<open>x = errNonNullableFieldValueIsNull\<close>)
      case True
      then show ?thesis
        unfolding res res' e itemOutcome_def Let_def
        using Some a3 eqs
        by (simp add: sameOutcome_def)
    next
      case False
      then have \<open>ib' = ib\<close> using ib Some by simp
      then show ?thesis
        unfolding res res' e itemOutcome_def Let_def
        using Some False a3 eqs
        by (simp add: sameOutcome_def arrayRel_def)
    qed
  qed
qed

lemma arrayItemStep_rel:
  assumes \<open>insensitive resolveItem\<close> and \<open>arrayRel strong st st'\<close>
  shows \<open>rel_step (arrayRel strong) (sameOutcome strong)
           (arrayItemStep resolveItem nullable stream z st)
           (arrayItemStep resolveItem nullable stream z st')\<close>
proof -
  obtain i item where z: \<open>z = (i, item)\<close> by (cases z)
  have a: \<open>agree strong (al_ctx st) (al_ctx st')\<close>
    using assms(2) by (simp add: arrayRel_def)
  have ai: \<open>agree strong (addIntegerPathElement (int i) (al_ctx st))
                          (addIntegerPathElement (int i) (al_ctx st'))\<close>
    using a by (rule addInt_agree)
  show ?thesis
  proof (cases \<open>Enabled stream \<and> int i > sint (InitialBatchSize stream - 1)\<close>)
    case True
    have \<open>agree strong
            (removeLastPathElement (preparePatch (PatchIndex stream) None item
               (addIntegerPathElement (int i) (al_ctx st))))
            (removeLastPathElement (preparePatch (PatchIndex stream) None item
               (addIntegerPathElement (int i) (al_ctx st'))))\<close>
      using ai by (intro removeLast_agree preparePatch_agree)
    then show ?thesis
      using assms(2) by (simp add: z arrayItemStep_unfold arrayRel_def True)
  next
    case False
    have \<open>related strong
            (resolveItem (addIntegerPathElement (int i) (al_ctx st)) item (al_itemBuf st))
            (resolveItem (addIntegerPathElement (int i) (al_ctx st')) item (al_itemBuf st))\<close>
      using assms(1) ai unfolding insensitive_def by blast
    moreover have \<open>al_itemBuf st' = al_itemBuf st\<close>
      using assms(2) by (simp add: arrayRel_def)
    ultimately show ?thesis
      using itemOutcome_rel[OF assms(2)] by (simp add: z arrayItemStep_unfold False)
  qed
qed

lemma resolveArraySynchronous_rel:
  assumes \<open>insensitive resolveItem\<close> and \<open>agree strong c c'\<close>
  shows \<open>sameOutcome strong
           (resolveArraySynchronous resolveItem nullable stream c arrayItems arrayBuf)
           (resolveArraySynchronous resolveItem nullable stream c' arrayItems arrayBuf)\<close>
proof -
  let ?st = \<open>\<lambda>c. \<lparr>al_ctx = c, al_arrayBuf = writeData lBrack arrayBuf, al_itemBuf = NewBufPair,
              al_hasPreviousItem = False, al_dataWritten = 0\<rparr>\<close>
  let ?body = \<open>arrayItemStep resolveItem nullable stream\<close>
  have start: \<open>arrayRel strong (?st c) (?st c')\<close>
    using assms(2) by (simp add: arrayRel_def)
  have loop: \<open>rel_step (arrayRel strong) (sameOutcome strong)
                (iterate ?body (indexed arrayItems) (?st c))
                (iterate ?body (indexed arrayItems) (?st c'))\<close>
    using start
  proof (rule iterate_rel)
    fix z u u' assume \<open>arrayRel strong u u'\<close>
    then show \<open>rel_step (arrayRel strong) (sameOutcome strong) (?body z u) (?body z u')\<close>
      using arrayItemStep_rel[OF assms(1)] by blast
  qed
  show ?thesis
  proof (cases \<open>iterate ?body (indexed arrayItems) (?st c)\<close>)
    case (Next st)
    then obtain st' where n': \<open>iterate ?body (indexed arrayItems) (?st c') = Next st'\<close>
        and r: \<open>arrayRel strong st st'\<close>
      using loop by (cases \<open>iterate ?body (indexed arrayItems) (?st c')\<close>) simp_all
    show ?thesis
      using Next n' r by (simp add: resolveArraySynchronous_def sameOutcome_def arrayRel_def)
  next
    case (Return res)
    then obtain res' where n': \<open>iterate ?body (indexed arrayItems) (?st c') = Return res'\<close>
        and r: \<open>sameOutcome strong res res'\<close>
      using loop by (cases \<open>iterate ?body (indexed arrayItems) (?st c')\<close>) simp_all
    show ?thesis
      using Return n' r by (simp add: resolveArraySynchronous_def)
  qed
qed

lemma firstError_cong:
  assumes \<open>map fst rs = map fst rs'\<close>
  shows \<open>firstError order rs = firstError order rs'\<close>
proof -
  have len: \<open>length rs = length rs'\<close>
    using assms by (metis length_map)
  have h: \<open>map (\<lambda>j. fst (rs ! j)) (filter (\<lambda>j. j < length rs) order)
      = map (\<lambda>j. fst (rs' ! j)) (filter (\<lambda>j. j < length rs) order)\<close>
  proof (rule map_cong[OF refl])
    fix j assume \<open>j \<in> set (filter (\<lambda>j. j < length rs) order)\<close>
    then have j: \<open>j < length rs\<close> by simp
    then have \<open>fst (rs ! j) = map fst rs ! j\<close> by simp
    also have \<open>\<dots> = map fst rs' ! j\<close> using assms by simp
    also have \<open>\<dots> = fst (rs' ! j)\<close> using j len by simp
    finally show \<open>fst (rs ! j) = fst (rs' ! j)\<close> .
  qed
  show ?thesis
    unfolding firstError_def len[symmetric] h by (rule refl)
qed

lemma firstError_None:
  assumes \<open>firstError (order @ [0..<length rs]) rs = None\<close> and \<open>res \<in> set rs\<close>
  shows \<open>fst res = None \<or> fst res = Some errTypeNameSkipped\<close>
proof -
  obtain j where j: \<open>j < length rs\<close> \<open>rs ! j = res\<close>
    using assms(2) by (auto simp: in_set_conv_nth)
  let ?es = \<open>map (\<lambda>j. fst (rs ! j)) (filter (\<lambda>j. j < length rs) (order @ [0..<length rs]))\<close>
  have mem: \<open>fst res \<in> set ?es\<close>
    using j by force
  have \<open>filter (\<lambda>e. e \<noteq> None \<and> e \<noteq> Some errTypeNameSkipped) ?es = []\<close>
  proof (cases \<open>filter (\<lambda>e. e \<noteq> None \<and> e \<noteq> Some errTypeNameSkipped) ?es\<close>)
    case Nil
    then show ?thesis .
  next
    case (Cons e es)
    then have \<open>firstError (order @ [0..<length rs]) rs = e\<close>
      by (simp add: firstError_def)
    moreover have \<open>e \<in> set (filter (\<lambda>e. e \<noteq> None \<and> e \<noteq> Some errTypeNameSkipped) ?es)\<close>
      using Cons by simp
    ultimately show ?thesis using assms(1) by auto
  qed
  then show ?thesis
    using mem by (auto simp: filter_empty_conv)
qed

lemma clone_agree:
  \<open>agree strong c c' \<Longrightarrow> agree strong (addPathElement e (Clone c)) (addPathElement e (Clone c'))\<close>
  by (simp add: agree_def sameView_def addPathElement_def Clone_def)

lemma length_asyncTasks [simp]: \<open>length (asyncTasks resolveItem c arrayItems) = length arrayItems\<close>
  by (simp add: asyncTasks_def indexed_def)

lemma asyncTasks_rel:
  assumes \<open>insensitive resolveItem\<close> and \<open>agree strong c c'\<close>
  shows \<open>list_all2 (related strong) (asyncTasks resolveItem c arrayItems)
                                     (asyncTasks resolveItem c' arrayItems)\<close>
  unfolding asyncTasks_def list_all2_map1 list_all2_map2
proof (rule list_all2_same[THEN iffD2], intro ballI)
  fix z assume \<open>z \<in> set (indexed arrayItems)\<close>
  obtain i x where z: \<open>z = (i, x)\<close> by (cases z)
  have \<open>related strong (resolveItem (addPathElement (Itoa (int i)) (Clone c)) x NewBufPair)
                        (resolveItem (addPathElement (Itoa (int i)) (Clone c')) x NewBufPair)\<close>
    using assms clone_agree unfolding insensitive_def by blast
  then show \<open>related strong
          (case z of (i, itemData) \<Rightarrow>
             resolveItem (addPathElement (Itoa (int i)) (Clone c)) itemData NewBufPair)
          (case z of (i, itemData) \<Rightarrow>
             resolveItem (addPathElement (Itoa (int i)) (Clone c')) itemData NewBufPair)\<close>
    by (simp add: z)
qed

lemma foldl_mergeItem_map:
  \<open>foldl (\<lambda>acc res. mergeItem (snd (snd res)) acc) init rs
   = foldl (\<lambda>acc b. mergeItem b acc) init (map (\<lambda>res. snd (snd res)) rs)\<close>
  by (simp add: foldl_map)

lemma resolveArrayAsynchronous_unfold:
  \<open>resolveArrayAsynchronous r resolveItem nullable ctx arrayItems arrayBuf =
     (case firstError (schedule r (length arrayItems)) (asyncTasks resolveItem ctx arrayItems) of
        Some e \<Rightarrow>
          if e = errNonNullableFieldValueIsNull \<and> nullable
          then (None, ctx, resolveNull ((writeData lBrack arrayBuf)\<lparr>Data := []\<rparr>))
          else (Some e, ctx, writeData lBrack arrayBuf)
      | None \<Rightarrow>
          (None, ctx,
           writeData rBrack
             (fst (foldl (\<lambda>acc b. mergeItem b acc) (writeData lBrack arrayBuf, False, 0)
                     (map (\<lambda>res. snd (snd res)) (asyncTasks resolveItem ctx arrayItems))))))\<close>
  unfolding resolveArrayAsynchronous_def Let_def foldl_mergeItem_map
  by (simp split: option.splits prod.splits)

lemma resolveArrayAsynchronous_rel:
  assumes \<open>insensitive resolveItem\<close> and \<open>agree strong c c'\<close>
  shows \<open>sameOutcome strong
           (resolveArrayAsynchronous r resolveItem nullable c arrayItems arrayBuf)
           (resolveArrayAsynchronous r resolveItem nullable c' arrayItems arrayBuf)\<close>
proof -
  let ?rs = \<open>asyncTasks resolveItem c arrayItems\<close>
  let ?rs' = \<open>asyncTasks resolveItem c' arrayItems\<close>
  have all: \<open>list_all2 (related strong) ?rs ?rs'\<close>
    using assms by (rule asyncTasks_rel)
  then have \<open>list_all2 (\<lambda>a b. fst a = fst b) ?rs ?rs'\<close>
    by (rule list_all2_mono) (simp add: related_def)
  then have fsts: \<open>map fst ?rs = map fst ?rs'\<close>
    by (simp add: list_all2_conv_all_nth list_eq_iff_nth_eq)
  have fe: \<open>firstError (schedule r (length arrayItems)) ?rs'
      = firstError (schedule r (length arrayItems)) ?rs\<close>
    using firstError_cong[OF fsts] by simp
  show ?thesis
  proof (cases \<open>firstError (schedule r (length arrayItems)) ?rs\<close>)
    case (Some e)
    then show ?thesis
      using assms(2) fe by (simp add: resolveArrayAsynchronous_unfold sameOutcome_def)
  next
    case None
    have ok: \<open>\<And>res. res \<in> set ?rs \<Longrightarrow> fst res \<noteq> Some errNonNullableFieldValueIsNull\<close>
      using firstError_None[of \<open>completionOrder r (length arrayItems)\<close> ?rs] None
      by (fastforce simp: schedule_def)
    have \<open>list_all2 (\<lambda>a b. snd (snd a) = snd (snd b)) ?rs ?rs'\<close>
      using all
    proof (rule list.rel_mono_strong)
      fix a b assume \<open>a \<in> set ?rs\<close> \<open>related strong a b\<close>
      then show \<open>snd (snd a) = snd (snd b)\<close>
        using ok by (simp add: related_def)
    qed
    then have bufs: \<open>map (\<lambda>res. snd (snd res)) ?rs' = map (\<lambda>res. snd (snd res)) ?rs\<close>
      by (simp add: list_all2_conv_all_nth list_eq_iff_nth_eq)
    show ?thesis
      using assms(2) fe None by (simp add: resolveArrayAsynchronous_unfold sameOutcome_def bufs)
  qed
qed

lemma resolveArray_rel:
  assumes \<open>insensitive resolveItem\<close>
  shows \<open>insensitive (resolveArray r resolveItem p nullable resolveAsynchronous stream)\<close>
  unfolding insensitive_def
proof (intro allI impI)
  fix strong c c' d arrayBuf
  assume a: \<open>agree strong c c'\<close>
  have s: \<open>related strong
             (resolveArraySynchronous resolveItem nullable stream c items arrayBuf)
             (resolveArraySynchronous resolveItem nullable stream c' items arrayBuf)\<close> for items
    using resolveArraySynchronous_rel[OF assms a] by (rule sameOutcome_related)
  have as: \<open>related strong
             (resolveArrayAsynchronous r resolveItem nullable c items arrayBuf)
             (resolveArrayAsynchronous r resolveItem nullable c' items arrayBuf)\<close> for items
    using resolveArrayAsynchronous_rel[OF assms a] by (rule sameOutcome_related)
  show \<open>related strong
          (resolveArray r resolveItem p nullable resolveAsynchronous stream c d arrayBuf)
          (resolveArray r resolveItem p nullable resolveAsynchronous stream c' d arrayBuf)\<close>
  proof (cases \<open>d = emptyArray \<or> length (map fst (fst (jp_ArrayEach (parser r) d p))) = 0\<close>)
    case True
    then show ?thesis
      using a by (auto simp add: resolveArray_def Let_def related_def)
  next
    case False
    then show ?thesis
      using s as by (simp add: resolveArray_def Let_def)
  qed
qed

lemma resolveNode_insensitive: \<open>insensitive (resolveNode r n)\<close>
proof -
  have \<open>\<forall>strong c'. agree strong ctx c' \<longrightarrow>
          related strong (resolveNode r n ctx d bufPair) (resolveNode r n c' d bufPair)\<close>
    for ctx d bufPair
  proof (induction r n ctx d bufPair rule: resolveNode.induct)
    case (1 r nullable p flds fetch ctx d bufPair)
    have \<open>\<And>f. f \<in> set flds \<Longrightarrow> insensitive (resolveNode r (Value f))\<close>
      unfolding insensitive_def using 1 by blast
    then have \<open>insensitive (resolveObject r (resolveNode r) nullable p flds fetch)\<close>
      by (rule resolveObject_rel)
    then show ?case
      unfolding insensitive_def by simp
  next
    case (2 r p nullable resolveAsynchronous item stream ctx d bufPair)
    have \<open>insensitive (resolveNode r item)\<close>
      unfolding insensitive_def using 2 by blast
    then have \<open>insensitive (resolveArray r (resolveNode r item) p nullable resolveAsynchronous stream)\<close>
      by (rule resolveArray_rel)
    then show ?case
      unfolding insensitive_def by simp
  next
    case (3 r dfr ctx d bufPair)
    then show ?case
      by (simp add: related_def preparePatch_agree)
  qed (simp_all add: related_def split: prod.splits)
  then show ?thesis
    unfolding insensitive_def by blast
qed

lemma asyncTasks_map:
  \<open>asyncTasks resolveItem ctx arrayItems = map (asyncTask resolveItem ctx) (indexed arrayItems)\<close>
  by (simp add: asyncTasks_def asyncTask_def)

lemma firstError_all_None:
  assumes \<open>\<forall>res \<in> set rs. fst res = None\<close>
  shows \<open>firstError order rs = None\<close>
proof -
  have \<open>filter (\<lambda>e. e \<noteq> None \<and> e \<noteq> Some errTypeNameSkipped)
          (map (\<lambda>j. fst (rs ! j)) (filter (\<lambda>j. j < length rs) order)) = []\<close>
    using assms by (auto simp: filter_empty_conv)
  then show ?thesis
    by (simp add: firstError_def)
qed

lemma task_agree:
  assumes \<open>sameView ctx c\<close>
  shows \<open>agree False (addPathElement (Itoa (int i)) (Clone ctx)) (addIntegerPathElement (int i) c)\<close>
  using assms
  by (simp add: agree_def sameView_def addPathElement_def addIntegerPathElement_def Clone_def)

lemma sync_loop_as_fold:
  assumes ins: \<open>insensitive resolveItem\<close> and kv: \<open>keepsView resolveItem\<close>
    and ns: \<open>\<not> Enabled stream\<close>
    and ok: \<open>\<forall>z \<in> set zs. fst (asyncTask resolveItem ctx z) = None\<close>
    and buf: \<open>al_itemBuf st = NewBufPair\<close>
    and view: \<open>sameView ctx (al_ctx st)\<close>
  shows \<open>\<exists>st'. iterate (arrayItemStep resolveItem nullable stream) zs st = Next st'
           \<and> al_itemBuf st' = NewBufPair \<and> sameView ctx (al_ctx st')
           \<and> (al_arrayBuf st', al_hasPreviousItem st', al_dataWritten st')
              = foldl (\<lambda>acc b. mergeItem b acc)
                  (al_arrayBuf st, al_hasPreviousItem st, al_dataWritten st)
                  (map (\<lambda>z. snd (snd (asyncTask resolveItem ctx z))) zs)\<close>
  using ok buf view
proof (induction zs arbitrary: st)
  case Nil
  then show ?case by simp
next
  case (Cons z zs)
  obtain i x where z: \<open>z = (i, x)\<close> by (cases z)
  let ?c1 = \<open>addIntegerPathElement (int i) (al_ctx st)\<close>
  obtain e c2 ib where run: \<open>resolveItem ?c1 x NewBufPair = (e, c2, ib)\<close>
    by (cases \<open>resolveItem ?c1 x NewBufPair\<close>)
  have t: \<open>fst (asyncTask resolveItem ctx z) = None\<close>
    using Cons.prems(1) by simp
  have rel: \<open>related False (asyncTask resolveItem ctx z) (resolveItem ?c1 x NewBufPair)\<close>
    using ins task_agree[OF Cons.prems(3)] unfolding insensitive_def asyncTask_def z by simp
  have e: \<open>e = None\<close>
    using rel t run by (simp add: related_def)
  have ib: \<open>snd (snd (asyncTask resolveItem ctx z)) = ib\<close>
    using rel t run by (simp add: related_def)
  have \<open>sameView ?c1 c2\<close>
    using kv run unfolding keepsView_def by (metis fst_conv snd_conv)
  then have \<open>sameView (al_ctx st) (removeLastPathElement c2)\<close>
    by (rule removeLast_addInt_view)
  then have v: \<open>sameView ctx (removeLastPathElement c2)\<close>
    using Cons.prems(3) sameView_trans by blast
  obtain ib1 ab1 where m: \<open>MergeBufPairs ib (al_arrayBuf st) (al_hasPreviousItem st) = (ib1, ab1)\<close>
    by (cases \<open>MergeBufPairs ib (al_arrayBuf st) (al_hasPreviousItem st)\<close>)
  have ib1: \<open>ib1 = NewBufPair\<close>
    using MergeBufPairs_fst[of ib \<open>al_arrayBuf st\<close> \<open>al_hasPreviousItem st\<close>] m by simp
  let ?st1 = \<open>st\<lparr>al_ctx := removeLastPathElement c2, al_arrayBuf := ab1, al_itemBuf := ib1,
                   al_hasPreviousItem :=
                     (if \<not> al_hasPreviousItem st \<and> al_dataWritten st + length (Data ib) \<noteq> 0
                      then True else al_hasPreviousItem st),
                   al_dataWritten := al_dataWritten st + length (Data ib)\<rparr>\<close>
  have step: \<open>arrayItemStep resolveItem nullable stream z st = Next ?st1\<close>
    using ns run m
    by (simp add: z arrayItemStep_unfold itemOutcome_def Cons.prems(2) e Let_def)
  have merged: \<open>mergeItem ib (al_arrayBuf st, al_hasPreviousItem st, al_dataWritten st)
      = (al_arrayBuf ?st1, al_hasPreviousItem ?st1, al_dataWritten ?st1)\<close>
    using m by (simp add: mergeItem_def Let_def)
  have \<open>\<exists>st'. iterate (arrayItemStep resolveItem nullable stream) zs ?st1 = Next st'
           \<and> al_itemBuf st' = NewBufPair \<and> sameView ctx (al_ctx st')
           \<and> (al_arrayBuf st', al_hasPreviousItem st', al_dataWritten st')
              = foldl (\<lambda>acc b. mergeItem b acc)
                  (al_arrayBuf ?st1, al_hasPreviousItem ?st1, al_dataWritten ?st1)
                  (map (\<lambda>z. snd (snd (asyncTask resolveItem ctx z))) zs)\<close>
    using Cons.prems(1) ib1 v by (intro Cons.IH) simp_all
  then show ?case
    unfolding iterate.simps step step.case list.map foldl_Cons ib merged by simp
qed

text \<open>
  C2, as the code has it: for an array without streaming, when every task of the
  asynchronous array returns without an error, \<open>resolveArrayAsynchronous\<close> and
  \<open>resolveArraySynchronous\<close> both succeed and leave the same bytes in the data and the errors
  buffer, whatever the order in which the tasks complete.
\<close>

theorem async_equals_sync:
  assumes \<open>\<not> Enabled stream\<close>
    and \<open>\<forall>res \<in> set (asyncTasks (resolveNode r item) ctx arrayItems). fst res = None\<close>
  shows \<open>fst (resolveArrayAsynchronous (r\<lparr>completionOrder := order\<rparr>) (resolveNode r item)
               nullable ctx arrayItems arrayBuf) = None
       \<and> fst (resolveArraySynchronous (resolveNode r item) nullable stream ctx arrayItems arrayBuf)
          = None
       \<and> snd (snd (resolveArrayAsynchronous (r\<lparr>completionOrder := order\<rparr>) (resolveNode r item)
               nullable ctx arrayItems arrayBuf))
          = snd (snd (resolveArraySynchronous (resolveNode r item) nullable stream ctx arrayItems
               arrayBuf))\<close>
proof -
  let ?rI = \<open>resolveNode r item\<close>
  let ?st0 = \<open>\<lparr>al_ctx = ctx, al_arrayBuf = writeData lBrack arrayBuf, al_itemBuf = NewBufPair,
              al_hasPreviousItem = False, al_dataWritten = 0\<rparr>\<close>
  have kv: \<open>keepsView ?rI\<close>
    unfolding keepsView_def using resolveNode_view by blast
  have ok: \<open>\<forall>z \<in> set (indexed arrayItems). fst (asyncTask ?rI ctx z) = None\<close>
    using assms(2) by (simp add: asyncTasks_map)
  obtain st' where loop: \<open>iterate (arrayItemStep ?rI nullable stream) (indexed arrayItems) ?st0
                          = Next st'\<close>
    and acc: \<open>(al_arrayBuf st', al_hasPreviousItem st', al_dataWritten st')
              = foldl (\<lambda>acc b. mergeItem b acc) (writeData lBrack arrayBuf, False, 0)
                  (map (\<lambda>z. snd (snd (asyncTask ?rI ctx z))) (indexed arrayItems))\<close>
    using sync_loop_as_fold[OF resolveNode_insensitive kv assms(1) ok, of ?st0 nullable]
    by auto
  have noerr: \<open>firstError (schedule (r\<lparr>completionOrder := order\<rparr>) (length arrayItems))
                 (asyncTasks ?rI ctx arrayItems) = None\<close>
    using assms(2) by (rule firstError_all_None)
  have bufs: \<open>map (\<lambda>res. snd (snd res)) (asyncTasks ?rI ctx arrayItems)
      = map (\<lambda>z. snd (snd (asyncTask ?rI ctx z))) (indexed arrayItems)\<close>
    by (simp add: asyncTasks_map)
  have sync: \<open>resolveArraySynchronous ?rI nullable stream ctx arrayItems arrayBuf
      = (None, al_ctx st', writeData rBrack (al_arrayBuf st'))\<close>
    by (simp add: resolveArraySynchronous_def loop)
  have async: \<open>resolveArrayAsynchronous (r\<lparr>completionOrder := order\<rparr>) ?rI nullable ctx arrayItems
                 arrayBuf
      = (None, ctx, writeData rBrack (al_arrayBuf st'))\<close>
    unfolding resolveArrayAsynchronous_unfold noerr bufs acc[symmetric] by simp
  show ?thesis
    by (simp add: sync async)
qed

text \<open>
  C2 as the spec states it fails when an element fails: for the elements \<^verbatim>\<open>1\<close> and \<^verbatim>\<open>null\<close> of
  an array of non-nullable integers, the synchronous loop has written \<^verbatim>\<open>[1\<close> when it returns
  the error, the asynchronous one only \<^verbatim>\<open>[\<close>.
\<close>

theorem async_sync_counterexample:
  \<open>snd (snd (resolveArraySynchronous (resolveNode numbersResolver (Integer [] False)) False
               streamOff NewContext [''1'', ''null''] NewBufPair))
     = \<lparr>Data = ''[1'', Errors = []\<rparr>
   \<and> snd (snd (resolveArrayAsynchronous numbersResolver (resolveNode numbersResolver (Integer [] False))
               False NewContext [''1'', ''null''] NewBufPair))
     = \<lparr>Data = ''['', Errors = []\<rparr>
   \<and> snd (snd (resolveArrayAsynchronous numbersResolver (resolveNode numbersResolver (Integer [] False))
               False NewContext [''1'', ''null''] NewBufPair))
     \<noteq> snd (snd (resolveArraySynchronous (resolveNode numbersResolver (Integer [] False)) False
               streamOff NewContext [''1'', ''null''] NewBufPair))\<close>
  by code_simp

theorem async_equals_sync_witness:
  \<open>\<not> Enabled streamOff
   \<and> map fst (asyncTasks (resolveNode numbersResolver (Integer [] False)) NewContext
                [''1'', ''2'', ''3'']) = [None, None, None]
   \<and> snd (snd (resolveArrayAsynchronous (numbersResolver\<lparr>completionOrder := (\<lambda>n. [2, 0, 1])\<rparr>)
               (resolveNode numbersResolver (Integer [] False)) False NewContext
               [''1'', ''2'', ''3''] NewBufPair))
     = \<lparr>Data = ''[1,2,3]'', Errors = []\<rparr>
   \<and> snd (snd (resolveArraySynchronous (resolveNode numbersResolver (Integer [] False)) False
               streamOff NewContext [''1'', ''2'', ''3''] NewBufPair))
     = \<lparr>Data = ''[1,2,3]'', Errors = []\<rparr>\<close>
proof -
  have h1: \<open>\<not> Enabled streamOff\<close>
    by (simp add: streamOff_def)
  have m: \<open>map fst (asyncTasks (resolveNode numbersResolver (Integer [] False)) NewContext
                [''1'', ''2'', ''3'']) = [None, None, None]\<close>
    by code_simp
  have h2: \<open>\<forall>res \<in> set (asyncTasks (resolveNode numbersResolver (Integer [] False)) NewContext
                       [''1'', ''2'', ''3'']). fst res = None\<close>
  proof
    fix res
    assume \<open>res \<in> set (asyncTasks (resolveNode numbersResolver (Integer [] False)) NewContext
                       [''1'', ''2'', ''3''])\<close>
    then have \<open>fst res \<in> set (map fst (asyncTasks (resolveNode numbersResolver (Integer [] False))
                       NewContext [''1'', ''2'', ''3'']))\<close>
      by simp
    then show \<open>fst res = None\<close>
      unfolding m by simp
  qed
  have s: \<open>snd (snd (resolveArraySynchronous (resolveNode numbersResolver (Integer [] False)) False
               streamOff NewContext [''1'', ''2'', ''3''] NewBufPair))
     = \<lparr>Data = ''[1,2,3]'', Errors = []\<rparr>\<close>
    by code_simp
  from async_equals_sync [OF h1 h2, where order = \<open>\<lambda>n. [2, 0, 1]\<close> and nullable = False
      and arrayBuf = NewBufPair] h1 m s
  show ?thesis by simp
qed

subsection \<open>Validating the context\<close>

text \<open>
  C4, as the code has it: the context is valid if and only if both patch cursors are in
  their initial state, and it is \<open>ResolveGraphQLStreamingResponse\<close> that begins by validating
  it: with a context that was not reset the call fails with the invalid-context error, the
  context and the writer are as they were, and nothing was fetched or walked, however much
  fuel the loop has.
\<close>

theorem streaming_validates_context:
  \<open>(validateContext ctx = None \<longleftrightarrow> maxPatch ctx = - 1 \<and> currentPatch ctx = - 1)
   \<and> (maxPatch ctx \<noteq> - 1 \<or> currentPatch ctx \<noteq> - 1 \<longrightarrow>
        ResolveGraphQLStreamingResponse r wr fl after cancelled fuel ctx response d w
        = Some (Some errInvalidContext, ctx, w))\<close>
  by (auto simp add: ResolveGraphQLStreamingResponse_def validateContext_def)

text \<open>
  C4 as the spec states it fails: \<open>ResolveGraphQLResponse\<close> does not validate the context. With
  a context that is not valid it resolves the plan of S1 and writes the response.
\<close>

theorem ResolveGraphQLResponse_validation_counterexample:
  \<open>validateContext usedContext = Some errInvalidContext
   \<and> fst (ResolveGraphQLResponse helloResolver bufferWrite usedContext planS1 helloEnvelope []) = None
   \<and> snd (snd (ResolveGraphQLResponse helloResolver bufferWrite usedContext planS1 helloEnvelope []))
      = ''{"data":{"hello":"world"}}''\<close>
  by code_simp

theorem streaming_validates_context_witness:
  \<open>maxPatch usedContext = 0
   \<and> map_option fst (ResolveGraphQLStreamingResponse helloResolver bufferWrite (\<lambda>w. w)
        (\<lambda>k. False) (\<lambda>k. False) 5 usedContext streamS1 helloEnvelope [])
      = Some (Some errInvalidContext)
   \<and> map_option (\<lambda>res. snd (snd res)) (ResolveGraphQLStreamingResponse helloResolver bufferWrite
        (\<lambda>w. w) (\<lambda>k. False) (\<lambda>k. False) 5 usedContext streamS1 helloEnvelope [])
      = Some []\<close>
proof -
  have m: \<open>maxPatch usedContext = 0\<close>
    by (simp add: usedContext_def addPatch_def NewContext_def)
  then have h: \<open>maxPatch usedContext \<noteq> - 1 \<or> currentPatch usedContext \<noteq> - 1\<close>
    by simp
  have \<open>ResolveGraphQLStreamingResponse helloResolver bufferWrite (\<lambda>w. w)
        (\<lambda>k. False) (\<lambda>k. False) 5 usedContext streamS1 helloEnvelope []
      = Some (Some errInvalidContext, usedContext, [])\<close>
    by (rule streaming_validates_context [THEN conjunct2, THEN mp, OF h])
  then show ?thesis
    using m by simp
qed

end
